theory Spec2Isabelle
  imports
    Main
    "HOL-Library.Char_ord"
    "HOL-Library.List_Lexorder"
    "HOL-Library.Product_Lexorder"
    "HOL-Library.Multiset"
begin

section \<open>Data model\<close>

text \<open>
  Python strings are modelled as \<^typ>\<open>string\<close>: one \<^typ>\<open>char\<close> stands for one code point,
  restricted to the code points below 256. With \<open>Char_ord\<close> and \<open>List_Lexorder\<close> the
  order on \<^typ>\<open>string\<close> is the lexicographic order by code point, which is the order Python's
  \<^verbatim>\<open>sorted\<close> and \<^verbatim>\<open><\<close> use on \<^verbatim>\<open>str\<close>; \<^const>\<open>length\<close> is Python's \<^verbatim>\<open>len\<close>.
\<close>

text \<open>
  The values \<^verbatim>\<open>json.loads\<close> returns: \<^verbatim>\<open>None\<close>, \<^verbatim>\<open>bool\<close>, \<^verbatim>\<open>int\<close>, \<^verbatim>\<open>float\<close>
  (a finite float \<open>m * 2 ^ e\<close> as \<open>JFloat m e\<close>), \<^verbatim>\<open>str\<close>, \<^verbatim>\<open>list\<close> and \<^verbatim>\<open>dict\<close>.
  A \<^verbatim>\<open>dict\<close> is an association list in insertion order; \<^verbatim>\<open>json.loads\<close> builds
  dictionaries whose keys are strings and pairwise distinct.
\<close>

datatype json =
    JNull
  | JBool bool
  | JInt int
  | JFloat int int
  | JStr string
  | JArr "json list"
  | JObj "(string \<times> json) list"

text \<open>The exceptions that can leave the program, and \<^verbatim>\<open>SystemExit\<close> with its message.\<close>

datatype pyexc =
    TypeError
  | AttributeError
  | KeyError
  | SystemExit string

subsection \<open>Python primitives used by the validator\<close>

text \<open>\<^verbatim>\<open>isinstance(v, str)\<close> for the result of \<^verbatim>\<open>data.get(key)\<close>: the string, if it is one.\<close>

fun as_str :: "json option \<Rightarrow> string option" where
  "as_str (Some (JStr s)) = Some s"
| "as_str _ = None"

fun is_str :: "json \<Rightarrow> bool" where
  "is_str (JStr s) = True"
| "is_str _ = False"

text \<open>\<^verbatim>\<open>needle in haystack\<close> on two strings: the substring test.\<close>

fun is_substring :: "string \<Rightarrow> string \<Rightarrow> bool" where
  "is_substring k [] = (k = [])"
| "is_substring k (c # s) = (take (length k) (c # s) = k \<or> is_substring k s)"

text \<open>
  \<^verbatim>\<open>key in data\<close> for a string \<open>key\<close>: key membership on a \<^verbatim>\<open>dict\<close>, element equality on
  a \<^verbatim>\<open>list\<close>, the substring test on a \<^verbatim>\<open>str\<close>; \<^verbatim>\<open>None\<close>, booleans and numbers are not
  iterable and raise \<^verbatim>\<open>TypeError\<close>.
\<close>

fun py_in :: "string \<Rightarrow> json \<Rightarrow> pyexc + bool" where
  "py_in key (JObj kvs) = Inr (key \<in> set (map fst kvs))"
| "py_in key (JArr xs) = Inr (JStr key \<in> set xs)"
| "py_in key (JStr s) = Inr (is_substring key s)"
| "py_in key JNull = Inl TypeError"
| "py_in key (JBool b) = Inl TypeError"
| "py_in key (JInt i) = Inl TypeError"
| "py_in key (JFloat m e) = Inl TypeError"

subsection \<open>\<^verbatim>\<open>repr\<close> of strings and of lists of strings\<close>

definition hex_digit :: "nat \<Rightarrow> char" where
  "hex_digit n = ''0123456789abcdef'' ! (n mod 16)"

text \<open>
  The code points below 256 that \<^verbatim>\<open>repr\<close> writes as \<^verbatim>\<open>\xNN\<close>: the controls, DEL, the
  C1 controls, the no-break space and the soft hyphen.
\<close>

definition py_unprintable :: "char \<Rightarrow> bool" where
  "py_unprintable c =
     (let n = (of_char c :: nat)
      in n < 0x20 \<or> n = 0x7F \<or> (0x80 \<le> n \<and> n \<le> 0xA0) \<or> n = 0xAD)"

definition py_repr_char :: "char \<Rightarrow> char \<Rightarrow> string" where
  "py_repr_char quote c =
     (if c = quote \<or> c = CHR 0x5C then [CHR 0x5C, c]
      else if c = CHR 0x09 then [CHR 0x5C, CHR ''t'']
      else if c = CHR 0x0A then [CHR 0x5C, CHR ''n'']
      else if c = CHR 0x0D then [CHR 0x5C, CHR ''r'']
      else if py_unprintable c then
        [CHR 0x5C, CHR ''x'', hex_digit (of_char c div 16), hex_digit (of_char c)]
      else [c])"

text \<open>Single quotes, unless the string has a single quote and no double quote.\<close>

definition py_repr_str :: "string \<Rightarrow> string" where
  "py_repr_str s =
     (let quote = (if CHR 0x27 \<in> set s \<and> CHR 0x22 \<notin> set s then CHR 0x22 else CHR 0x27)
      in [quote] @ concat (map (py_repr_char quote) s) @ [quote])"

fun join_with :: "string \<Rightarrow> string list \<Rightarrow> string" where
  "join_with sep [] = []"
| "join_with sep [x] = x"
| "join_with sep (x # y # ys) = x @ sep @ join_with sep (y # ys)"

definition py_repr_list :: "string list \<Rightarrow> string" where
  "py_repr_list xs = ''['' @ join_with '', '' (map py_repr_str xs) @ '']''"

section \<open>Validator\<close>

subsection \<open>The identifier pattern\<close>

text \<open>
  \<^verbatim>\<open>ID_RE = re.compile(r"^[a-z0-9][a-z0-9-_]{1,64}$")\<close>. In the class \<^verbatim>\<open>[a-z0-9-_]\<close> the
  hyphen after the range \<^verbatim>\<open>0-9\<close> is a literal, so the class is the lower-case letters, the
  digits, the hyphen and the underscore.
\<close>

definition id_head_char :: "char \<Rightarrow> bool" where
  "id_head_char c = ((CHR ''a'' \<le> c \<and> c \<le> CHR ''z'') \<or> (CHR ''0'' \<le> c \<and> c \<le> CHR ''9''))"

definition id_tail_char :: "char \<Rightarrow> bool" where
  "id_tail_char c = (id_head_char c \<or> c = CHR ''-'' \<or> c = CHR ''_'')"

text \<open>
  \<^verbatim>\<open>ID_RE.match(s)\<close>: one head character, then \<open>n\<close> class characters for some \<open>n\<close> from 1 to
  64, then \<^verbatim>\<open>$\<close>, which in Python (without \<^verbatim>\<open>re.MULTILINE\<close>) holds at the end of the string
  and also just before a newline that ends the string.
\<close>

definition at_dollar :: "string \<Rightarrow> bool" where
  "at_dollar rest = (rest = [] \<or> rest = [CHR 0x0A])"

fun ID_RE_match :: "string \<Rightarrow> bool" where
  "ID_RE_match [] = False"
| "ID_RE_match (c # t) =
     (id_head_char c \<and>
      (\<exists>n \<in> set [1 ..< 65]. n \<le> length t \<and> list_all id_tail_char (take n t) \<and> at_dollar (drop n t)))"

subsection \<open>The manual rule set\<close>

text \<open>\<^verbatim>\<open>for key in required: if key not in data: return ...\<close>: the first missing key.\<close>

fun missing_required :: "json \<Rightarrow> string list \<Rightarrow> pyexc + string option" where
  "missing_required data [] = Inr None"
| "missing_required data (key # keys) =
     (case py_in key data of
        Inl exc \<Rightarrow> Inl exc
      | Inr False \<Rightarrow> Inr (Some key)
      | Inr True \<Rightarrow> missing_required data keys)"

text \<open>\<^verbatim>\<open>for key in optional_str: if key in data and not isinstance(data[key], str)\<close>.\<close>

fun check_optional_str :: "(string \<times> json) list \<Rightarrow> string list \<Rightarrow> string option" where
  "check_optional_str kvs [] = None"
| "check_optional_str kvs (key # keys) =
     (case map_of kvs key of
        Some v \<Rightarrow> if \<not> is_str v then Some (key @ '' must be string'')
                  else check_optional_str kvs keys
      | None \<Rightarrow> check_optional_str kvs keys)"

fun is_str_array :: "json \<Rightarrow> bool" where
  "is_str_array (JArr xs) = (\<not> list_ex (\<lambda>x. \<not> is_str x) xs)"
| "is_str_array _ = False"

fun check_str_arrays :: "(string \<times> json) list \<Rightarrow> string list \<Rightarrow> string option" where
  "check_str_arrays kvs [] = None"
| "check_str_arrays kvs (key # keys) =
     (case map_of kvs key of
        Some v \<Rightarrow> if \<not> is_str_array v then Some (key @ '' must be array of strings'')
                  else check_str_arrays kvs keys
      | None \<Rightarrow> check_str_arrays kvs keys)"

text \<open>
  The keys of a \<^verbatim>\<open>dict\<close> from \<^verbatim>\<open>json.loads\<close> are strings, so \<^verbatim>\<open>isinstance(k, str)\<close> holds
  for each of them; the loop returns at the first value that is not a string.
\<close>

fun entrypoints_items :: "(string \<times> json) list \<Rightarrow> string option" where
  "entrypoints_items [] = None"
| "entrypoints_items ((k, v) # items) =
     (if \<not> is_str v then Some ''entrypoints keys and values must be strings''
      else entrypoints_items items)"

definition check_entrypoints :: "(string \<times> json) list \<Rightarrow> string option" where
  "check_entrypoints kvs =
     (case map_of kvs ''entrypoints'' of
        None \<Rightarrow> None
      | Some (JObj items) \<Rightarrow> entrypoints_items items
      | Some _ \<Rightarrow> Some ''entrypoints must be object'')"

definition allowed :: "string set" where
  "allowed = {''id'', ''title'', ''one_liner'', ''tags'', ''stack'', ''entrypoints''}"

definition extras :: "(string \<times> json) list \<Rightarrow> string list" where
  "extras kvs = [k \<leftarrow> map fst kvs. k \<notin> allowed]"

definition check_extras :: "(string \<times> json) list \<Rightarrow> string option" where
  "check_extras kvs =
     (if extras kvs \<noteq> [] then Some (''unexpected fields: '' @ py_repr_list (sort (extras kvs)))
      else None)"

definition pattern_message :: string where
  "pattern_message = ''id must match pattern ^[a-z0-9][a-z0-9-_]{1,64}$''"

text \<open>The body of \<^verbatim>\<open>validate_metadata_manual\<close> after the loop over the required keys, on a \<^verbatim>\<open>dict\<close>.\<close>

definition validate_fields :: "(string \<times> json) list \<Rightarrow> string option" where
  "validate_fields kvs =
     (case as_str (map_of kvs ''id'') of
        None \<Rightarrow> Some ''id must be string''
      | Some pid \<Rightarrow>
          if \<not> ID_RE_match pid then Some pattern_message
          else (case as_str (map_of kvs ''one_liner'') of
            None \<Rightarrow> Some ''one_liner must be string''
          | Some one_liner \<Rightarrow>
              if length one_liner > 120 then Some ''one_liner exceeds 120 chars''
              else (case check_optional_str kvs [''title''] of
                Some err \<Rightarrow> Some err
              | None \<Rightarrow>
                  (case check_str_arrays kvs [''tags'', ''stack''] of
                    Some err \<Rightarrow> Some err
                  | None \<Rightarrow>
                      (case check_entrypoints kvs of
                        Some err \<Rightarrow> Some err
                      | None \<Rightarrow> check_extras kvs)))))"

text \<open>
  \<^verbatim>\<open>validate_metadata_manual(data)\<close>: \<open>Inr None\<close> is the return value \<^verbatim>\<open>None\<close>, \<open>Inr (Some msg)\<close>
  a returned error string, \<open>Inl exc\<close> an exception leaving the function. After the loop over
  the required keys the function calls \<^verbatim>\<open>data.get\<close>, which only a \<^verbatim>\<open>dict\<close> has: a list or a
  string that passed the loop raises \<^verbatim>\<open>AttributeError\<close>.
\<close>

definition validate_metadata_manual :: "json \<Rightarrow> pyexc + string option" where
  "validate_metadata_manual data =
     (case missing_required data [''id'', ''one_liner''] of
        Inl exc \<Rightarrow> Inl exc
      | Inr (Some key) \<Rightarrow> Inr (Some (''missing required field: '' @ key))
      | Inr None \<Rightarrow>
          (case data of
             JObj kvs \<Rightarrow> Inr (validate_fields kvs)
           | _ \<Rightarrow> Inl AttributeError))"

section \<open>Conflict resolver\<close>

text \<open>
  A manifest entry, as \<^verbatim>\<open>scan_projects\<close> builds it. The type of the identifier is a
  parameter: the scanner copies \<^verbatim>\<open>data["id"]\<close>, a JSON value, and the data model of the
  manifest has a string there. The optional keys are present or absent.
\<close>

record 'i entry =
  entry_id :: 'i
  path :: string
  one_liner :: json
  source_metadata :: string
  source_mtime :: int
  title :: "json option"
  tags :: "json option"
  stack :: "json option"
  entrypoints :: "json option"

record 'i conflict =
  conflict_id :: 'i
  paths :: "string list"

text \<open>
  \<^verbatim>\<open>by_id.setdefault(key, []).append(value)\<close> on a dictionary in insertion order: a new key
  goes to the end, a known key keeps its place and its list grows at the end.
\<close>

fun setdefault_append :: "'k \<Rightarrow> 'v \<Rightarrow> ('k \<times> 'v list) list \<Rightarrow> ('k \<times> 'v list) list" where
  "setdefault_append key v [] = [(key, [v])]"
| "setdefault_append key v ((k, vs) # by_id) =
     (if k = key then (k, vs @ [v]) # by_id else (k, vs) # setdefault_append key v by_id)"

text \<open>
  The first loop of \<^verbatim>\<open>resolve_conflicts\<close>. \<^verbatim>\<open>sorted(entries, key=...)\<close> is a stable sort, and
  so is \<^const>\<open>sort_key\<close>.
\<close>

definition group_by_id :: "('i, 'z) entry_scheme list \<Rightarrow> ('i \<times> ('i, 'z) entry_scheme list) list" where
  "group_by_id entries =
     foldl (\<lambda>by_id entry. setdefault_append (entry_id entry) entry by_id) [] (sort_key path entries)"

text \<open>
  The second loop and the two final sorts. Every list in \<open>by_id\<close> has an element (lemma
  \<open>group_by_id_nonempty\<close> below), so \<^verbatim>\<open>items[0]\<close> is \<^term>\<open>hd items\<close>. The identifier type is
  one that Python's \<^verbatim>\<open>==\<close> and \<^verbatim>\<open><\<close> order linearly, as they do strings.
\<close>

definition resolve_conflicts ::
  "('i::linorder) entry list \<Rightarrow> 'i entry list \<times> 'i conflict list" where
  "resolve_conflicts entries =
     (let by_id = group_by_id entries;
          kept = map (\<lambda>(project_id, items). hd items) by_id;
          conflicts =
            map (\<lambda>(project_id, items). \<lparr>conflict_id = project_id, paths = map path items\<rparr>)
              (filter (\<lambda>(project_id, items). length items > 1) by_id);
          kept_sorted = sort_key (\<lambda>e. (entry_id e, path e)) kept;
          conflicts_sorted = sort_key conflict_id conflicts
      in (kept_sorted, conflicts_sorted))"

text \<open>An entry with the mandatory keys only.\<close>

definition plain_entry :: "'i \<Rightarrow> string \<Rightarrow> json \<Rightarrow> int \<Rightarrow> 'i entry" where
  "plain_entry i p ol mtime =
     \<lparr>entry_id = i, path = p, one_liner = ol, source_metadata = ''project.metadata.json'',
      source_mtime = mtime, title = None, tags = None, stack = None, entrypoints = None\<rparr>"

section \<open>File system, loader and schema validation\<close>

text \<open>
  A directory tree. A file carries what \<^verbatim>\<open>json.loads(path.read_text(encoding="utf-8"))\<close>
  does on it, either the text of the exception raised (\<open>Inl\<close>) or the value returned
  (\<open>Inr\<close>), and its modification time as \<^verbatim>\<open>int(st_mtime)\<close>. A directory lists its
  children by name in the order \<^verbatim>\<open>os.scandir\<close> yields them.
\<close>

datatype fsnode =
    File "string + json" int
  | Dir "(string \<times> fsnode) list"

fun is_dir :: "fsnode \<Rightarrow> bool" where
  "is_dir (Dir children) = True"
| "is_dir (File content mtime) = False"

text \<open>
  \<^verbatim>\<open>os.path.join(parent, name)\<close> on POSIX. The root is the result of \<^verbatim>\<open>resolve()\<close>, absolute
  and normalised, so the strings built from it are normalised too and \<^verbatim>\<open>str(Path(current))\<close>
  is \<open>current\<close>.
\<close>

definition path_join :: "string \<Rightarrow> string \<Rightarrow> string" where
  "path_join parent name =
     (if name \<noteq> [] \<and> hd name = CHR ''/'' then name
      else if parent = [] \<or> last parent = CHR ''/'' then parent @ name
      else parent @ ''/'' @ name)"

text \<open>
  \<^verbatim>\<open>load_json(path)\<close>, given what is at \<open>path\<close> (\<open>None\<close>: nothing). The result is the pair
  the function returns, Python's \<^verbatim>\<open>None\<close> being \<^const>\<open>JNull\<close> in the first place and
  \<^const>\<open>None\<close> in the second. Reading a directory raises \<^verbatim>\<open>IsADirectoryError\<close>, which
  \<^verbatim>\<open>except Exception\<close> catches.
\<close>

fun load_json :: "string \<Rightarrow> fsnode option \<Rightarrow> json \<times> string option" where
  "load_json p None = (JNull, Some (''missing: '' @ p))"
| "load_json p (Some (File (Inr data) mtime)) = (data, None)"
| "load_json p (Some (File (Inl exc) mtime)) = (JNull, Some (''invalid json: '' @ exc))"
| "load_json p (Some (Dir children)) =
     (JNull, Some (''invalid json: '' @ ''[Errno 21] Is a directory: '' @ py_repr_str p))"

text \<open>
  What the run depends on besides the tree: whether \<^verbatim>\<open>import jsonschema\<close> succeeds, and then
  what \<^verbatim>\<open>jsonschema.validate(instance, schema)\<close> does (\<open>None\<close>: it returns; \<open>Some text\<close>: it
  raises an exception with that text); the schema path and what is there; and
  \<^verbatim>\<open>json.dumps(_, indent=2, sort_keys=True)\<close>.
\<close>

record env =
  jsonschema :: "(json \<Rightarrow> json \<Rightarrow> string option) option"
  schema_path :: string
  schema_file :: "fsnode option"
  dumps :: "json \<Rightarrow> string"

text \<open>
  The error strings are never empty, so the tests \<^verbatim>\<open>if err:\<close> and \<^verbatim>\<open>if v_err:\<close> of the
  source are tests for \<open>Some\<close>.
\<close>

definition validate_metadata_schema :: "env \<Rightarrow> json \<Rightarrow> pyexc + string option" where
  "validate_metadata_schema E data =
     (case jsonschema E of
        None \<Rightarrow> validate_metadata_manual data
      | Some validate \<Rightarrow>
          (case load_json (schema_path E) (schema_file E) of
             (schema, Some err) \<Rightarrow> Inr (Some (''schema load failed: '' @ err))
           | (schema, None) \<Rightarrow>
               (case validate data schema of
                  Some exc \<Rightarrow> Inr (Some (''schema validation failed: '' @ exc))
                | None \<Rightarrow> Inr None)))"

section \<open>Tree scanner\<close>

definition SKIP_DIRS :: "string set" where
  "SKIP_DIRS = {''.git'', ''.codex'', ''node_modules'', ''.venv'', ''venv'', ''target'', ''dist'',
                ''build'', ''.tox'', ''.pytest_cache'', ''.mypy_cache'', ''.cache''}"

definition is_repo_root :: "string list \<Rightarrow> string list \<Rightarrow> bool" where
  "is_repo_root dirnames filenames =
     (if ''.git'' \<in> set dirnames then True
      else if ''.git'' \<in> set filenames then True
      else False)"

record WarningItem =
  warn_path :: string
  message :: string

text \<open>\<^verbatim>\<open>data[key]\<close> for a string key: only a \<^verbatim>\<open>dict\<close> can be subscripted by a string.\<close>

fun subscript :: "json \<Rightarrow> string \<Rightarrow> pyexc + json" where
  "subscript (JObj kvs) key = (case map_of kvs key of None \<Rightarrow> Inl KeyError | Some v \<Rightarrow> Inr v)"
| "subscript _ key = Inl TypeError"

text \<open>\<^verbatim>\<open>if key in data: entry[key] = data[key]\<close>, reached when \<open>data\<close> is a \<^verbatim>\<open>dict\<close>.\<close>

fun optional_key :: "json \<Rightarrow> string \<Rightarrow> json option" where
  "optional_key (JObj kvs) key = map_of kvs key"
| "optional_key _ key = None"

definition make_entry :: "string \<Rightarrow> int \<Rightarrow> json \<Rightarrow> pyexc + json entry" where
  "make_entry current mtime data =
     (case subscript data ''id'' of
        Inl exc \<Rightarrow> Inl exc
      | Inr i \<Rightarrow>
          (case subscript data ''one_liner'' of
             Inl exc \<Rightarrow> Inl exc
           | Inr ol \<Rightarrow>
               Inr \<lparr>entry_id = i, path = current, one_liner = ol,
                    source_metadata = ''project.metadata.json'', source_mtime = mtime,
                    title = optional_key data ''title'', tags = optional_key data ''tags'',
                    stack = optional_key data ''stack'',
                    entrypoints = optional_key data ''entrypoints''\<rparr>))"

fun st_mtime :: "fsnode \<Rightarrow> int" where
  "st_mtime (File content mtime) = mtime"
| "st_mtime (Dir children) = 0"

type_synonym scan_state = "json entry list \<times> WarningItem list"

text \<open>
  The branch \<^verbatim>\<open>if has_repo:\<close> of the loop body, up to the assignment that empties
  \<^verbatim>\<open>dirnames\<close>. \<open>Inl\<close> is an exception leaving \<^verbatim>\<open>scan_projects\<close>: \<^verbatim>\<open>SystemExit\<close> in strict
  mode, or whatever the validator or the construction of the entry raises. The modification
  time is read only after a successful load, hence of a file.
\<close>

definition scan_repo ::
  "env \<Rightarrow> bool \<Rightarrow> string \<Rightarrow> (string \<times> fsnode) list \<Rightarrow> scan_state \<Rightarrow> pyexc + scan_state" where
  "scan_repo E strict current children st =
     (let metadata_path = path_join current ''project.metadata.json'' in
      case map_of children ''project.metadata.json'' of
        None \<Rightarrow> Inr st
      | Some node \<Rightarrow>
          (case load_json metadata_path (Some node) of
             (data, Some err) \<Rightarrow>
               if strict then Inl (SystemExit err)
               else Inr (fst st, snd st @ [\<lparr>warn_path = metadata_path, message = err\<rparr>])
           | (data, None) \<Rightarrow>
               (case validate_metadata_schema E data of
                  Inl exc \<Rightarrow> Inl exc
                | Inr (Some v_err) \<Rightarrow>
                    if strict then Inl (SystemExit v_err)
                    else Inr (fst st, snd st @ [\<lparr>warn_path = metadata_path, message = v_err\<rparr>])
                | Inr None \<Rightarrow>
                    (case make_entry current (st_mtime node) data of
                       Inl exc \<Rightarrow> Inl exc
                     | Inr entry \<Rightarrow> Inr (fst st @ [entry], snd st)))))"

lemma size_filter_children:
  "size_list f (filter P xs) \<le> size_list f xs"
  by (induction xs) auto

text \<open>
  \<^verbatim>\<open>for current, dirnames, filenames in os.walk(root, topdown=True)\<close> with the loop body
  run at each directory before its subdirectories are walked: \<^verbatim>\<open>os.walk\<close> descends into
  the names the body left in \<^verbatim>\<open>dirnames\<close>, in that order. Walking something that is not a
  directory yields nothing.
\<close>

function scan_walk :: "env \<Rightarrow> bool \<Rightarrow> string \<Rightarrow> fsnode \<Rightarrow> scan_state \<Rightarrow> pyexc + scan_state"
  and scan_subdirs ::
    "env \<Rightarrow> bool \<Rightarrow> string \<Rightarrow> (string \<times> fsnode) list \<Rightarrow> scan_state \<Rightarrow> pyexc + scan_state"
  where
  "scan_walk E strict current (File content mtime) st = Inr st"
| "scan_walk E strict current (Dir children) st =
     (let dirs = [c \<leftarrow> children. is_dir (snd c)];
          nondirs = [c \<leftarrow> children. \<not> is_dir (snd c)];
          has_repo = is_repo_root (map fst dirs) (map fst nondirs);
          pruned = [d \<leftarrow> dirs. fst d \<notin> SKIP_DIRS]
      in case (if has_repo then scan_repo E strict current children st else Inr st) of
           Inl exc \<Rightarrow> Inl exc
         | Inr st' \<Rightarrow> scan_subdirs E strict current (if has_repo then [] else pruned) st')"
| "scan_subdirs E strict current [] st = Inr st"
| "scan_subdirs E strict current ((name, sub) # rest) st =
     (case scan_walk E strict (path_join current name) sub st of
        Inl exc \<Rightarrow> Inl exc
      | Inr st' \<Rightarrow> scan_subdirs E strict current rest st')"
  by pat_completeness auto
termination
proof (relation "measure (\<lambda>x. case x of
          Inl (E, strict, current, node, st) \<Rightarrow> 2 * size node
        | Inr (E, strict, current, ds, st) \<Rightarrow> 2 * size_list (size_prod (\<lambda>n. 0) size) ds + 1)",
      goal_cases)
  case 1
  show ?case by simp
next
  case (2 E strict current children st dirs nondirs has_repo pruned st')
  have "size_list (size_prod (\<lambda>n. 0) size) (if has_repo then [] else pruned)
          \<le> size_list (size_prod (\<lambda>n. 0) size) children"
    using 2(1,4) size_filter_children [of _ "\<lambda>d. fst d \<notin> SKIP_DIRS" dirs]
      size_filter_children [of _ "\<lambda>c. is_dir (snd c)" children]
    by (auto intro: order_trans)
  then show ?case by simp
next
  case 3
  then show ?case by simp
next
  case 4
  then show ?case by simp
qed

definition scan_projects :: "env \<Rightarrow> bool \<Rightarrow> string \<Rightarrow> fsnode \<Rightarrow> pyexc + scan_state" where
  "scan_projects E strict root tree = scan_walk E strict root tree ([], [])"

section \<open>Manifest writer and the program\<close>

definition optional_field :: "string \<Rightarrow> json option \<Rightarrow> (string \<times> json) list" where
  "optional_field key v = (case v of None \<Rightarrow> [] | Some x \<Rightarrow> [(key, x)])"

text \<open>The \<^verbatim>\<open>dict\<close> that is an entry, its keys in the order the scanner inserts them.\<close>

definition entry_json :: "string entry \<Rightarrow> json" where
  "entry_json e =
     JObj ([(''id'', JStr (entry_id e)), (''path'', JStr (path e)), (''one_liner'', one_liner e),
            (''source_metadata'', JStr (source_metadata e)),
            (''source_mtime'', JInt (source_mtime e))]
           @ optional_field ''title'' (title e) @ optional_field ''tags'' (tags e)
           @ optional_field ''stack'' (stack e) @ optional_field ''entrypoints'' (entrypoints e))"

definition conflict_json :: "string conflict \<Rightarrow> json" where
  "conflict_json c = JObj [(''id'', JStr (conflict_id c)), (''paths'', JArr (map JStr (paths c)))]"

text \<open>
  \<^verbatim>\<open>write_manifest\<close>: the text written to the output path, \<open>generated_at\<close> being what
  \<^verbatim>\<open>now_iso()\<close> returns at that moment. The key \<^verbatim>\<open>conflicts\<close> is there only when there is
  a conflict.
\<close>

definition manifest_doc :: "string \<Rightarrow> string \<Rightarrow> string entry list \<Rightarrow> string conflict list \<Rightarrow> json" where
  "manifest_doc root generated_at entries conflicts =
     JObj ([(''version'', JStr ''1.0''), (''root'', JStr root), (''generated_at'', JStr generated_at),
            (''projects'', JArr (map entry_json entries))]
           @ (if conflicts \<noteq> [] then [(''conflicts'', JArr (map conflict_json conflicts))] else []))"

definition write_manifest ::
  "env \<Rightarrow> string \<Rightarrow> string \<Rightarrow> string entry list \<Rightarrow> string conflict list \<Rightarrow> string" where
  "write_manifest E root generated_at entries conflicts =
     dumps E (manifest_doc root generated_at entries conflicts) @ [CHR 0x0A]"

text \<open>
  The entries of the scanner with the identifier as a string, when every identifier is one.
  The manual rule set accepts no other document; a schema engine may. What
  \<^verbatim>\<open>resolve_conflicts\<close> does with identifiers of other Python types (hashing, comparison
  across types) is not modelled: such a run has the outcome \<open>Unmodelled\<close>, and no theorem
  below says what it does.
\<close>

definition typed_entry :: "json entry \<Rightarrow> string entry option" where
  "typed_entry e =
     (case entry_id e of
        JStr s \<Rightarrow>
          Some \<lparr>entry_id = s, path = path e, one_liner = one_liner e,
                source_metadata = source_metadata e, source_mtime = source_mtime e,
                title = title e, tags = tags e, stack = stack e, entrypoints = entrypoints e\<rparr>
      | _ \<Rightarrow> None)"

fun typed_entries :: "json entry list \<Rightarrow> string entry list option" where
  "typed_entries [] = Some []"
| "typed_entries (e # es) =
     (case typed_entry e of
        None \<Rightarrow> None
      | Some t \<Rightarrow> (case typed_entries es of None \<Rightarrow> None | Some ts \<Rightarrow> Some (t # ts)))"

definition warning_line :: "WarningItem \<Rightarrow> string" where
  "warning_line item = ''warning: '' @ warn_path item @ '': '' @ message item @ [CHR 0x0A]"

definition duplicate_line :: string where
  "duplicate_line = ''warning: duplicate project ids detected; see conflicts in manifest'' @ [CHR 0x0A]"

text \<open>
  A run that reaches \<^verbatim>\<open>return 0\<close>: the manifest text written, the lines written to
  \<^verbatim>\<open>sys.stderr\<close>, and the value returned, which \<^verbatim>\<open>raise SystemExit(main())\<close> makes the exit
  code.
\<close>

record run =
  written :: string
  stderr :: "string list"
  returned :: int

text \<open>
  The outcome of \<^verbatim>\<open>main\<close> on a root and the tree there, at the time \<open>generated_at\<close>. An exception leaving \<^verbatim>\<open>main\<close>
  (\<^verbatim>\<open>SystemExit\<close> with a message, or an uncaught error) ends the process with exit code 1
  before \<^verbatim>\<open>write_manifest\<close> is called.
\<close>

datatype outcome =
    Raised pyexc
  | Returned run
  | Unmodelled

definition main :: "env \<Rightarrow> bool \<Rightarrow> string \<Rightarrow> string \<Rightarrow> fsnode \<Rightarrow> outcome" where
  "main E strict root generated_at tree =
     (case scan_projects E strict root tree of
        Inl exc \<Rightarrow> Raised exc
      | Inr (entries, warnings) \<Rightarrow>
          (case typed_entries entries of
             None \<Rightarrow> Unmodelled
           | Some typed \<Rightarrow>
               (case resolve_conflicts typed of
                  (kept, conflicts) \<Rightarrow>
                    Returned \<lparr>written = write_manifest E root generated_at kept conflicts,
                              stderr = map warning_line warnings
                                @ (if conflicts \<noteq> [] then [duplicate_line] else []),
                              returned = 0\<rparr>)))"

fun exit_code :: "outcome \<Rightarrow> int option" where
  "exit_code (Raised exc) = Some 1"
| "exit_code (Returned r) = Some (returned r)"
| "exit_code Unmodelled = None"

text \<open>An environment without the schema engine: the manual rule set is in use.\<close>

definition manual_env :: "(json \<Rightarrow> string) \<Rightarrow> env" where
  "manual_env serialise =
     \<lparr>jsonschema = None, schema_path = ''/schema.json'', schema_file = None, dumps = serialise\<rparr>"

section \<open>Definitions for the statements\<close>

text \<open>The first loop of \<^verbatim>\<open>resolve_conflicts\<close> from any dictionary, for induction.\<close>

definition grouping :: "('a \<Rightarrow> 'k) \<Rightarrow> ('k \<times> 'a list) list \<Rightarrow> 'a list \<Rightarrow> ('k \<times> 'a list) list" where
  "grouping f by_id xs = foldl (\<lambda>m x. setdefault_append (f x) x m) by_id xs"

text \<open>
  Two ways to change a tree without changing what the scanner can see of it, used to say
  what the scanner never looks at. \<open>hollow\<close> empties a directory. \<open>without_skipped\<close> empties,
  at every depth, each directory whose name is in \<^const>\<open>SKIP_DIRS\<close>.
\<close>

fun hollow :: "fsnode \<Rightarrow> fsnode" where
  "hollow (Dir children) = Dir []"
| "hollow (File content mtime) = File content mtime"

fun without_skipped :: "fsnode \<Rightarrow> fsnode"
  and without_skipped_children :: "(string \<times> fsnode) list \<Rightarrow> (string \<times> fsnode) list" where
  "without_skipped (File content mtime) = File content mtime"
| "without_skipped (Dir children) = Dir (without_skipped_children children)"
| "without_skipped_children [] = []"
| "without_skipped_children ((name, sub) # rest) =
     (name, if name \<in> SKIP_DIRS then hollow sub else without_skipped sub)
       # without_skipped_children rest"

text \<open>The value of \<^verbatim>\<open>has_repo\<close> in the loop body at a directory with these children.\<close>

definition has_repo :: "(string \<times> fsnode) list \<Rightarrow> bool" where
  "has_repo children =
     is_repo_root (map fst [c \<leftarrow> children. is_dir (snd c)]) (map fst [c \<leftarrow> children. \<not> is_dir (snd c)])"

text \<open>\<open>sealed\<close> empties every directory directly inside a repository root, at every depth.\<close>

fun sealed :: "fsnode \<Rightarrow> fsnode"
  and sealed_children :: "(string \<times> fsnode) list \<Rightarrow> (string \<times> fsnode) list" where
  "sealed (File content mtime) = File content mtime"
| "sealed (Dir children) =
     (if has_repo children then Dir (map (\<lambda>c. (fst c, hollow (snd c))) children)
      else Dir (sealed_children children))"
| "sealed_children [] = []"
| "sealed_children ((name, sub) # rest) = (name, sealed sub) # sealed_children rest"

text \<open>
  The repository roots the walk reaches from a directory, in the order of the walk, each
  with its children: the directories at which the loop body takes the branch
  \<^verbatim>\<open>if has_repo:\<close>.
\<close>

fun repo_sites :: "string \<Rightarrow> fsnode \<Rightarrow> (string \<times> (string \<times> fsnode) list) list"
  and sites_in :: "string \<Rightarrow> (string \<times> fsnode) list \<Rightarrow> (string \<times> (string \<times> fsnode) list) list" where
  "repo_sites current (File content mtime) = []"
| "repo_sites current (Dir children) =
     (if has_repo children then [(current, children)] else sites_in current children)"
| "sites_in current [] = []"
| "sites_in current ((name, sub) # rest) =
     (if is_dir sub \<and> name \<notin> SKIP_DIRS then repo_sites (path_join current name) sub else [])
       @ sites_in current rest"

text \<open>The loop body run at a list of repository roots, one after the other.\<close>

fun scan_sites ::
  "env \<Rightarrow> bool \<Rightarrow> (string \<times> (string \<times> fsnode) list) list \<Rightarrow> scan_state \<Rightarrow> pyexc + scan_state" where
  "scan_sites E strict [] st = Inr st"
| "scan_sites E strict ((current, children) # rest) st =
     (case scan_repo E strict current children st of
        Inl exc \<Rightarrow> Inl exc
      | Inr st' \<Rightarrow> scan_sites E strict rest st')"

text \<open>
  All a visit depends on: the path of the directory and what its metadata file is, a
  directory standing for any directory.
\<close>

definition site_key :: "string \<times> (string \<times> fsnode) list \<Rightarrow> string \<times> fsnode option" where
  "site_key site = (fst site, map_option hollow (map_of (snd site) ''project.metadata.json''))"

text \<open>A directory that holds just that metadata file, or nothing.\<close>

fun key_children :: "fsnode option \<Rightarrow> (string \<times> fsnode) list" where
  "key_children None = []"
| "key_children (Some node) = [(''project.metadata.json'', node)]"

text \<open>The visit of a repository root from the empty state, as a function of its key.\<close>

definition visit :: "env \<Rightarrow> bool \<Rightarrow> string \<times> fsnode option \<Rightarrow> pyexc + scan_state" where
  "visit E strict k = scan_repo E strict (fst k) (key_children (snd k)) ([], [])"

fun found_entries :: "pyexc + scan_state \<Rightarrow> json entry list" where
  "found_entries (Inl exc) = []"
| "found_entries (Inr st) = fst st"

fun found_warnings :: "pyexc + scan_state \<Rightarrow> WarningItem list" where
  "found_warnings (Inl exc) = []"
| "found_warnings (Inr st) = snd st"

text \<open>
  A tree as a file system has it: in every directory the names are pairwise distinct, not
  empty and without a slash.
\<close>

definition valid_name :: "string \<Rightarrow> bool" where
  "valid_name name = (name \<noteq> [] \<and> CHR ''/'' \<notin> set name)"

fun wf_tree :: "fsnode \<Rightarrow> bool"
  and wf_children :: "(string \<times> fsnode) list \<Rightarrow> bool" where
  "wf_tree (File content mtime) = True"
| "wf_tree (Dir children) = (distinct (map fst children) \<and> wf_children children)"
| "wf_children [] = True"
| "wf_children ((name, sub) # rest) = (valid_name name \<and> wf_tree sub \<and> wf_children rest)"

text \<open>
  The tree with the children of every directory listed in ascending order of their names.
  Two well-formed trees with the same canonical form are the same files and directories,
  listed in different orders.
\<close>

fun canonical :: "fsnode \<Rightarrow> fsnode"
  and canonical_children :: "(string \<times> fsnode) list \<Rightarrow> (string \<times> fsnode) list" where
  "canonical (File content mtime) = File content mtime"
| "canonical (Dir children) = Dir (sort_key fst (canonical_children children))"
| "canonical_children [] = []"
| "canonical_children ((name, sub) # rest) = (name, canonical sub) # canonical_children rest"

text \<open>The repository roots reached through one child of a directory.\<close>

fun child_sites :: "string \<Rightarrow> string \<times> fsnode \<Rightarrow> (string \<times> (string \<times> fsnode) list) list" where
  "child_sites current (name, sub) =
     (if is_dir sub \<and> name \<notin> SKIP_DIRS then repo_sites (path_join current name) sub else [])"

text \<open>
  A path that a name can be joined to with a slash, and the prefix \<^const>\<open>path_join\<close> puts
  before a valid name.
\<close>

definition good_path :: "string \<Rightarrow> bool" where
  "good_path p = (p \<noteq> [] \<and> last p \<noteq> CHR ''/'')"

definition base :: "string \<Rightarrow> string" where
  "base p = (if p = [] \<or> last p = CHR ''/'' then p else p @ ''/'')"

fun is_returned :: "outcome \<Rightarrow> bool" where
  "is_returned (Returned r) = True"
| "is_returned _ = False"

text \<open>
  The pattern \<^verbatim>\<open>^[a-z0-9][a-z0-9-_]{1,64}$\<close> as the specification reads it, on the whole
  string: one character of \<^verbatim>\<open>[a-z0-9]\<close>, then 1 to 64 characters of \<^verbatim>\<open>[a-z0-9-_]\<close>, and
  nothing else.
\<close>

fun matches_id_pattern :: "string \<Rightarrow> bool" where
  "matches_id_pattern [] = False"
| "matches_id_pattern (c # t) =
     (id_head_char c \<and> 1 \<le> length t \<and> length t \<le> 64 \<and> list_all id_tail_char t)"

text \<open>A string that matches the pattern, followed by one newline.\<close>

definition match_then_newline :: "string \<Rightarrow> bool" where
  "match_then_newline s = (s \<noteq> [] \<and> last s = CHR 0x0A \<and> matches_id_pattern (butlast s))"

section \<open>Example inputs\<close>

definition doc_foo :: "(string \<times> json) list" where
  "doc_foo = [(''id'', JStr ''ab''), (''one_liner'', JStr ''x''), (''foo'', JInt 1)]"

definition doc_with_id :: "string \<Rightarrow> (string \<times> json) list" where
  "doc_with_id s = [(''id'', JStr s), (''one_liner'', JStr ''x'')]"

definition zeta_alpha :: "string entry list" where
  "zeta_alpha = [plain_entry ''dup'' ''/a/zeta'' (JStr ''z'') 1,
                 plain_entry ''dup'' ''/a/alpha'' (JStr ''a'') 2]"

definition three_entries :: "string entry list" where
  "three_entries = [plain_entry ''web'' ''/src/web2'' (JStr ''w'') 1,
                    plain_entry ''api'' ''/src/api'' (JStr ''a'') 2,
                    plain_entry ''web'' ''/src/web1'' (JStr ''v'') 3]"

definition good_metadata :: fsnode where
  "good_metadata = File (Inr (JObj [(''id'', JStr ''proj1''), (''one_liner'', JStr ''demo'')])) 7"

definition inner_metadata :: fsnode where
  "inner_metadata = File (Inr (JObj [(''id'', JStr ''inner''), (''one_liner'', JStr ''nested'')])) 8"


definition proj1_entry :: "json entry" where
  "proj1_entry = plain_entry (JStr ''proj1'') ''/root/proj1'' (JStr ''demo'') 7"

definition skipped_repos :: fsnode where
  "skipped_repos =
     Dir [(''proj1'', Dir [(''.git'', Dir [(''project.metadata.json'', inner_metadata)]),
                          (''project.metadata.json'', good_metadata)]),
          (''node_modules'', Dir [(''.git'', Dir []), (''project.metadata.json'', inner_metadata),
                                  (''pkg'', Dir [(''.git'', Dir []),
                                                (''project.metadata.json'', inner_metadata)])])]"

definition bare_repo_and_bad_repo :: fsnode where
  "bare_repo_and_bad_repo =
     Dir [(''bare'', Dir [(''.git'', Dir []), (''README.md'', File (Inl ''Expecting value'') 1)]),
          (''bad'', Dir [(''.git'', Dir []),
                         (''project.metadata.json'', File (Inl ''Expecting value'') 3)])]"

definition bare_number_repo :: fsnode where
  "bare_number_repo =
     Dir [(''num'', Dir [(''.git'', Dir []), (''project.metadata.json'', File (Inr (JInt 5)) 0)])]"

definition id_list_repo :: fsnode where
  "id_list_repo =
     Dir [(''lst'', Dir [(''.git'', Dir []),
            (''project.metadata.json'', File (Inr (JArr [JStr ''id'', JStr ''one_liner''])) 0)])]"

definition short_list_repo :: fsnode where
  "short_list_repo =
     Dir [(''lst'', Dir [(''.git'', Dir []),
            (''project.metadata.json'', File (Inr (JArr [JInt 1, JInt 2])) 0)])]"

definition bad_then_number :: fsnode where
  "bad_then_number =
     Dir [(''bad'', Dir [(''.git'', Dir []),
                         (''project.metadata.json'', File (Inl ''Expecting value'') 3)]),
          (''num'', Dir [(''.git'', Dir []), (''project.metadata.json'', File (Inr (JInt 5)) 0)])]"

definition repo_api :: fsnode where
  "repo_api = Dir [(''project.metadata.json'',
                     File (Inr (JObj [(''id'', JStr ''api''), (''one_liner'', JStr ''service'')])) 11),
                   (''.git'', Dir [])]"

definition repo_web :: fsnode where
  "repo_web = Dir [(''.git'', Dir []),
                   (''project.metadata.json'',
                     File (Inr (JObj [(''id'', JStr ''api''), (''one_liner'', JStr ''site'')])) 12)]"

definition two_repos :: fsnode where
  "two_repos = Dir [(''web'', repo_web), (''api'', repo_api), (''notes.txt'', File (Inl ''x'') 1)]"

definition two_repos_reordered :: fsnode where
  "two_repos_reordered =
     Dir [(''notes.txt'', File (Inl ''x'') 1),
          (''api'', Dir [(''.git'', Dir []),
                         (''project.metadata.json'',
                           File (Inr (JObj [(''id'', JStr ''api''), (''one_liner'', JStr ''service'')])) 11)]),
          (''web'', repo_web)]"

section \<open>Properties of the validator\<close>

lemma map_of_filter_allowed:
  "k \<in> allowed \<Longrightarrow> map_of [kv \<leftarrow> kvs. fst kv \<in> allowed] k = map_of kvs k"
  by (induction kvs) auto

lemma key_in_filter_allowed:
  "k \<in> allowed \<Longrightarrow> k \<in> set (map fst [kv \<leftarrow> kvs. fst kv \<in> allowed]) \<longleftrightarrow> k \<in> set (map fst kvs)"
  by (induction kvs) auto

lemma allowed_names [simp]:
  "''id'' \<in> allowed" "''one_liner'' \<in> allowed" "''title'' \<in> allowed"
  "''tags'' \<in> allowed" "''stack'' \<in> allowed" "''entrypoints'' \<in> allowed"
  by (simp_all add: allowed_def)

lemma extras_filter_allowed: "extras [kv \<leftarrow> kvs. fst kv \<in> allowed] = []"
  by (induction kvs) (auto simp: extras_def)

lemma check_extras_filter_allowed: "check_extras [kv \<leftarrow> kvs. fst kv \<in> allowed] = None"
  by (simp add: check_extras_def extras_filter_allowed)

lemma validate_fields_filter_allowed:
  "validate_fields kvs =
     (case validate_fields [kv \<leftarrow> kvs. fst kv \<in> allowed] of
        Some err \<Rightarrow> Some err
      | None \<Rightarrow> check_extras kvs)"
  by (simp add: validate_fields_def check_entrypoints_def map_of_filter_allowed
      check_extras_filter_allowed split: option.splits)

lemma validate_manual_JObj:
  "validate_metadata_manual (JObj kvs) =
     (if ''id'' \<notin> set (map fst kvs) then Inr (Some ''missing required field: id'')
      else if ''one_liner'' \<notin> set (map fst kvs) then Inr (Some ''missing required field: one_liner'')
      else Inr (validate_fields kvs))"
  by (simp add: validate_metadata_manual_def)

text \<open>
  Claim C4, as amended. The rules run in order and the validator returns at the first
  failure, so the unexpected fields are reported only by a document that passes every
  earlier rule: if the document cut down to its allowed fields is valid and some field is
  outside the allowed set, \<^const>\<open>validate_metadata_manual\<close> fails with
  \<^verbatim>\<open>unexpected fields: \<close> followed by the \<^verbatim>\<open>repr\<close> of the list of all unexpected field
  names in ascending order.
\<close>

theorem unexpected_fields_reported:
  assumes "validate_metadata_manual (JObj [kv \<leftarrow> kvs. fst kv \<in> allowed]) = Inr None"
    and "\<exists>k \<in> set (map fst kvs). k \<notin> allowed"
  shows "\<exists>names. sorted names \<and> mset names = mset [k \<leftarrow> map fst kvs. k \<notin> allowed] \<and>
           validate_metadata_manual (JObj kvs)
             = Inr (Some (''unexpected fields: '' @ py_repr_list names))"
proof -
  let ?f = "[kv \<leftarrow> kvs. fst kv \<in> allowed]"
  from assms(1) have keys: "''id'' \<in> set (map fst ?f)" "''one_liner'' \<in> set (map fst ?f)"
    and ok: "validate_fields ?f = None"
    by (auto simp: validate_manual_JObj split: if_splits)
  from keys have keys': "''id'' \<in> set (map fst kvs)" "''one_liner'' \<in> set (map fst kvs)"
    by (simp_all only: key_in_filter_allowed allowed_names)
  from assms(2) have ne: "extras kvs \<noteq> []"
    by (auto simp: extras_def filter_empty_conv)
  have "validate_fields kvs = check_extras kvs"
    using ok validate_fields_filter_allowed[of kvs] by simp
  with keys' ne have "validate_metadata_manual (JObj kvs)
      = Inr (Some (''unexpected fields: '' @ py_repr_list (sort (extras kvs))))"
    by (simp add: validate_manual_JObj check_extras_def)
  moreover have "sorted (sort (extras kvs))" by simp
  moreover have "mset (sort (extras kvs)) = mset [k \<leftarrow> map fst kvs. k \<notin> allowed]"
    by (simp add: extras_def)
  ultimately show ?thesis by blast
qed

text \<open>
  The document \<^verbatim>\<open>{"id":"ab","one_liner":"x","foo":1}\<close> fails listing \<^verbatim>\<open>['foo']\<close>.
\<close>

theorem unexpected_fields_witness:
  "validate_metadata_manual (JObj doc_foo)
     = Inr (Some (''unexpected fields: ['' @ [CHR 0x27] @ ''foo'' @ [CHR 0x27] @ '']''))"
proof -
  have h1: "validate_metadata_manual (JObj [kv \<leftarrow> doc_foo. fst kv \<in> allowed]) = Inr None"
    by code_simp
  have h2: "\<exists>k \<in> set (map fst doc_foo). k \<notin> allowed"
    by code_simp
  have h3: "[k \<leftarrow> map fst doc_foo. k \<notin> allowed] = [''foo'']"
    by code_simp
  from unexpected_fields_reported [OF h1 h2] obtain names where
    n: "mset names = mset [k \<leftarrow> map fst doc_foo. k \<notin> allowed]"
    and v: "validate_metadata_manual (JObj doc_foo)
              = Inr (Some (''unexpected fields: '' @ py_repr_list names))"
    by blast
  from n h3 have "names = [''foo'']" by simp
  moreover have "py_repr_list [''foo''] = ''['' @ [CHR 0x27] @ ''foo'' @ [CHR 0x27] @ '']''"
    by code_simp
  ultimately show ?thesis using v by simp
qed

text \<open>
  Claim C4 as stated fails at its own example: in \<^verbatim>\<open>{"id":"a","one_liner":"x","foo":1}\<close> the
  identifier has one character, the pattern asks for two to 65, and the pattern rule comes
  before the rule on unexpected fields.
\<close>

theorem unexpected_fields_counterexample:
  "validate_metadata_manual (JObj [(''id'', JStr ''a''), (''one_liner'', JStr ''x''), (''foo'', JInt 1)])
     = Inr (Some pattern_message) \<and>
   validate_metadata_manual (JObj [(''id'', JStr ''a''), (''one_liner'', JStr ''x''), (''foo'', JInt 1)])
     \<noteq> Inr (Some (''unexpected fields: ['' @ [CHR 0x27] @ ''foo'' @ [CHR 0x27] @ '']''))"
  by code_simp

text \<open>
  The strings \<^verbatim>\<open>ID_RE\<close> matches: a head character and 1 to 64 class characters, with or
  without one final newline.
\<close>

lemma ID_RE_match_iff:
  "ID_RE_match s \<longleftrightarrow>
     (\<exists>c t. (s = c # t \<or> s = c # t @ [CHR 0x0A]) \<and> id_head_char c \<and>
            1 \<le> length t \<and> length t \<le> 64 \<and> list_all id_tail_char t)"
proof (cases s)
  case Nil
  then show ?thesis by simp
next
  case (Cons c u)
  have "(\<exists>n \<in> set [1 ..< 65]. n \<le> length u \<and> list_all id_tail_char (take n u) \<and> at_dollar (drop n u))
        \<longleftrightarrow> (\<exists>t. (u = t \<or> u = t @ [CHR 0x0A]) \<and> 1 \<le> length t \<and> length t \<le> 64 \<and> list_all id_tail_char t)"
    (is "?L \<longleftrightarrow> ?R")
  proof
    assume ?L
    then obtain n where n: "1 \<le> n" "n \<le> 64" "n \<le> length u"
      "list_all id_tail_char (take n u)" "at_dollar (drop n u)" by auto
    from n(5) have "u = take n u \<or> u = take n u @ [CHR 0x0A]"
      unfolding at_dollar_def by (metis append_take_drop_id append_Nil2)
    moreover have "length (take n u) = n" using n(3) by simp
    ultimately show ?R using n by (intro exI[of _ "take n u"]) auto
  next
    assume ?R
    then obtain t where t: "u = t \<or> u = t @ [CHR 0x0A]" "1 \<le> length t" "length t \<le> 64"
      "list_all id_tail_char t" by blast
    then have "length t \<in> set [1 ..< 65]" "length t \<le> length u"
      "list_all id_tail_char (take (length t) u)" "at_dollar (drop (length t) u)"
      by (auto simp: at_dollar_def)
    then show ?L by blast
  qed
  with Cons show ?thesis by auto
qed

text \<open>What \<^verbatim>\<open>ID_RE\<close> matches, in terms of the pattern read on the whole string.\<close>

lemma ID_RE_match_whole:
  "ID_RE_match s \<longleftrightarrow> matches_id_pattern s \<or> match_then_newline s"
proof
  assume "ID_RE_match s"
  then obtain c t where s: "s = c # t \<or> s = c # t @ [CHR 0x0A]"
    and m: "id_head_char c" "1 \<le> length t" "length t \<le> 64" "list_all id_tail_char t"
    unfolding ID_RE_match_iff by blast
  from m have whole: "matches_id_pattern (c # t)" by simp
  from s show "matches_id_pattern s \<or> match_then_newline s"
  proof
    assume "s = c # t"
    with whole show ?thesis by simp
  next
    assume n: "s = c # t @ [CHR 0x0A]"
    then have "butlast s = c # t" "last s = CHR 0x0A" "s \<noteq> []"
      by (simp_all add: butlast_append)
    with whole show ?thesis by (simp add: match_then_newline_def)
  qed
next
  assume "matches_id_pattern s \<or> match_then_newline s"
  then show "ID_RE_match s"
  proof
    assume w: "matches_id_pattern s"
    then obtain c t where "s = c # t" by (cases s) auto
    with w show ?thesis unfolding ID_RE_match_iff by auto
  next
    assume n: "match_then_newline s"
    then have ne: "s \<noteq> []" and l: "last s = CHR 0x0A" and w: "matches_id_pattern (butlast s)"
      by (simp_all add: match_then_newline_def)
    from w obtain c t where b: "butlast s = c # t" by (cases "butlast s") auto
    from ne have "s = butlast s @ [last s]" by simp
    with b l have "s = c # t @ [CHR 0x0A]" by simp
    moreover from w b have "id_head_char c" "1 \<le> length t" "length t \<le> 64"
      "list_all id_tail_char t" by simp_all
    ultimately show ?thesis unfolding ID_RE_match_iff by blast
  qed
qed

text \<open>
  Claim C5, as amended. The pattern is read on the whole string (\<^const>\<open>matches_id_pattern\<close>).
  For every document that has both required fields and whose \<^verbatim>\<open>id\<close> is a string that
  neither matches the pattern nor is a match followed by one final newline,
  \<^const>\<open>validate_metadata_manual\<close> fails with the message that cites the pattern; and the
  \<^verbatim>\<open>id\<close> of every document the validator accepts is a string that matches the pattern,
  unless it is a match followed by one final newline. Of the identifiers that are a match
  followed by one final newline the statement says nothing.
\<close>

theorem id_pattern_enforced:
  "(map_of kvs ''id'' = Some (JStr s) \<and> ''one_liner'' \<in> set (map fst kvs) \<and>
      \<not> matches_id_pattern s \<and> \<not> match_then_newline s
      \<longrightarrow> validate_metadata_manual (JObj kvs) = Inr (Some pattern_message)) \<and>
   (validate_metadata_manual data = Inr None
      \<longrightarrow> (\<exists>kvs' s'. data = JObj kvs' \<and> map_of kvs' ''id'' = Some (JStr s') \<and>
                       (\<not> match_then_newline s' \<longrightarrow> matches_id_pattern s')))"
proof (intro conjI impI)
  assume a: "map_of kvs ''id'' = Some (JStr s) \<and> ''one_liner'' \<in> set (map fst kvs) \<and>
      \<not> matches_id_pattern s \<and> \<not> match_then_newline s"
  then have "''id'' \<in> set (map fst kvs)"
    by (metis map_of_eq_None_iff option.distinct(1) set_map)
  moreover from a have "\<not> ID_RE_match s" by (simp add: ID_RE_match_whole)
  ultimately show "validate_metadata_manual (JObj kvs) = Inr (Some pattern_message)"
    using a by (simp add: validate_manual_JObj validate_fields_def)
next
  assume ok: "validate_metadata_manual data = Inr None"
  then obtain kvs' where d: "data = JObj kvs'"
    by (cases data) (auto simp: validate_metadata_manual_def split: sum.splits option.splits bool.splits)
  with ok have "validate_fields kvs' = None"
    by (auto simp: validate_manual_JObj split: if_splits)
  then obtain s' where s': "as_str (map_of kvs' ''id'') = Some s'" "ID_RE_match s'"
    by (auto simp: validate_fields_def split: option.splits if_splits)
  from s'(1) have "map_of kvs' ''id'' = Some (JStr s')"
    by (cases "map_of kvs' ''id''" rule: as_str.cases) auto
  moreover from s'(2) have "\<not> match_then_newline s' \<longrightarrow> matches_id_pattern s'"
    unfolding ID_RE_match_whole by blast
  ultimately show "\<exists>kvs' s'. data = JObj kvs' \<and> map_of kvs' ''id'' = Some (JStr s') \<and>
                       (\<not> match_then_newline s' \<longrightarrow> matches_id_pattern s')"
    using d by blast
qed

text \<open>
  The identifiers \<^verbatim>\<open>UpperCase\<close>, \<^verbatim>\<open>-leadinghyphen\<close> and the empty string are rejected with
  the pattern message; \<^verbatim>\<open>proj1\<close> is accepted and matches the pattern.
\<close>

theorem id_pattern_witness:
  "validate_metadata_manual (JObj (doc_with_id ''UpperCase'')) = Inr (Some pattern_message) \<and>
   validate_metadata_manual (JObj (doc_with_id ''-leadinghyphen'')) = Inr (Some pattern_message) \<and>
   validate_metadata_manual (JObj (doc_with_id [])) = Inr (Some pattern_message) \<and>
   validate_metadata_manual (JObj (doc_with_id ''proj1'')) = Inr None \<and>
   matches_id_pattern ''proj1''"
proof -
  have m: "\<And>s. map_of (doc_with_id s) ''id'' = Some (JStr s)"
    "\<And>s. ''one_liner'' \<in> set (map fst (doc_with_id s))"
    by (simp_all add: doc_with_id_def)
  have n1: "\<not> matches_id_pattern ''UpperCase'' \<and> \<not> match_then_newline ''UpperCase''"
    by code_simp
  have n2: "\<not> matches_id_pattern ''-leadinghyphen'' \<and> \<not> match_then_newline ''-leadinghyphen''"
    by code_simp
  have n3: "\<not> matches_id_pattern [] \<and> \<not> match_then_newline []"
    by code_simp
  have n4: "\<not> match_then_newline ''proj1''"
    by code_simp
  have ok: "validate_metadata_manual (JObj (doc_with_id ''proj1'')) = Inr None" by code_simp
  note fails = id_pattern_enforced [THEN conjunct1, rule_format, OF conjI, OF m(1) conjI, OF m(2)]
  from id_pattern_enforced [THEN conjunct2, rule_format, OF ok] n4
  have "matches_id_pattern ''proj1''" by (auto simp: doc_with_id_def)
  with fails [OF n1] fails [OF n2] fails [OF n3] ok show ?thesis by simp
qed

text \<open>
  Claim C5 as stated fails twice. A document without \<^verbatim>\<open>one_liner\<close> whose \<^verbatim>\<open>id\<close> does not
  match fails with the error that names the missing field, not the pattern: the presence of
  the required fields is checked first. And the validator accepts the identifier \<^verbatim>\<open>ab\<close>
  followed by a newline, which does not match the pattern: \<^verbatim>\<open>$\<close> in \<^verbatim>\<open>ID_RE\<close> also holds
  before a final newline.
\<close>

theorem id_pattern_counterexample:
  "validate_metadata_manual (JObj [(''id'', JStr ''UpperCase'')])
     = Inr (Some ''missing required field: one_liner'') \<and>
   \<not> matches_id_pattern ''UpperCase'' \<and>
   ''missing required field: one_liner'' \<noteq> pattern_message \<and>
   validate_metadata_manual (JObj (doc_with_id (''ab'' @ [CHR 0x0A]))) = Inr None \<and>
   \<not> matches_id_pattern (''ab'' @ [CHR 0x0A])"
  by code_simp

section \<open>Properties of the conflict resolver\<close>

lemma map_of_setdefault_append:
  "map_of (setdefault_append key v by_id) =
     (map_of by_id)(key \<mapsto> (case map_of by_id key of None \<Rightarrow> [v] | Some vs \<Rightarrow> vs @ [v]))"
  by (induction by_id) (auto simp: fun_eq_iff)

lemma keys_setdefault_append:
  "map fst (setdefault_append key v by_id) =
     (if key \<in> set (map fst by_id) then map fst by_id else map fst by_id @ [key])"
  by (induction by_id) force+

lemma distinct_setdefault_append:
  "distinct (map fst by_id) \<Longrightarrow> distinct (map fst (setdefault_append key v by_id))"
  by (simp add: keys_setdefault_append)

lemma distinct_grouping:
  "distinct (map fst by_id) \<Longrightarrow> distinct (map fst (grouping f by_id xs))"
  unfolding grouping_def
  by (induction xs arbitrary: by_id) (simp_all add: distinct_setdefault_append)

lemma map_of_grouping:
  "map_of (grouping f by_id xs) k =
     (case map_of by_id k of
        None \<Rightarrow> if filter (\<lambda>x. f x = k) xs = [] then None else Some (filter (\<lambda>x. f x = k) xs)
      | Some vs \<Rightarrow> Some (vs @ filter (\<lambda>x. f x = k) xs))"
  unfolding grouping_def
proof (induction xs arbitrary: by_id)
  case Nil
  then show ?case by (simp split: option.splits)
next
  case (Cons x xs)
  show ?case
    by (simp add: Cons.IH map_of_setdefault_append split: option.splits)
qed

lemma grouping_iff:
  "(k, items) \<in> set (grouping f [] xs) \<longleftrightarrow> items \<noteq> [] \<and> items = filter (\<lambda>x. f x = k) xs"
proof -
  have "distinct (map fst (grouping f [] xs))" by (simp add: distinct_grouping)
  then have "(k, items) \<in> set (grouping f [] xs) \<longleftrightarrow> map_of (grouping f [] xs) k = Some items"
    by simp
  then show ?thesis by (auto simp: map_of_grouping)
qed

lemma group_by_id_grouping:
  "group_by_id entries = grouping entry_id [] (sort_key path entries)"
  by (simp add: group_by_id_def grouping_def)

lemma group_by_id_iff:
  "(i, items) \<in> set (group_by_id entries) \<longleftrightarrow>
     items \<noteq> [] \<and> items = sort_key path [e \<leftarrow> entries. entry_id e = i]"
  by (simp add: group_by_id_grouping grouping_iff filter_sort)

lemma group_by_id_nonempty:
  "(i, items) \<in> set (group_by_id entries) \<Longrightarrow> items \<noteq> []"
  by (auto simp: group_by_id_iff)

lemma distinct_group_by_id: "distinct (map fst (group_by_id entries))"
  by (simp add: group_by_id_grouping distinct_grouping)

lemma hd_sort_key_least:
  assumes "xs \<noteq> []"
  shows "hd (sort_key f xs) \<in> set xs \<and> (\<forall>x \<in> set xs. f (hd (sort_key f xs)) \<le> f x)"
proof -
  from assms have "sort_key f xs \<noteq> []" by (metis length_sort length_0_conv)
  then obtain y ys where ys: "sort_key f xs = y # ys" by (cases "sort_key f xs") auto
  have "sorted (map f (sort_key f xs))" by (rule sorted_sort_key)
  with ys have "\<forall>x \<in> set (y # ys). f y \<le> f x" by auto
  moreover have "set (y # ys) = set xs" using ys by (metis set_sort)
  ultimately show ?thesis using ys by auto
qed

lemma group_head:
  assumes "i \<in> entry_id ` set entries"
  defines "k \<equiv> hd (sort_key path [e \<leftarrow> entries. entry_id e = i])"
  shows "k \<in> set entries" "entry_id k = i" "\<forall>e \<in> set entries. entry_id e = i \<longrightarrow> path k \<le> path e"
proof -
  from assms(1) have ne: "[e \<leftarrow> entries. entry_id e = i] \<noteq> []"
    by (auto simp: filter_empty_conv)
  from hd_sort_key_least [OF ne, of path]
  show "k \<in> set entries" "entry_id k = i" "\<forall>e \<in> set entries. entry_id e = i \<longrightarrow> path k \<le> path e"
    by (auto simp: k_def)
qed

lemma sort_key_Nil_iff: "sort_key f xs = [] \<longleftrightarrow> xs = []"
  by (metis length_sort length_0_conv)

lemma kept_iff:
  "k \<in> set (fst (resolve_conflicts entries)) \<longleftrightarrow>
     (\<exists>i \<in> entry_id ` set entries. k = hd (sort_key path [e \<leftarrow> entries. entry_id e = i]))"
proof -
  have "set (fst (resolve_conflicts entries)) = (\<lambda>(i, items). hd items) ` set (group_by_id entries)"
    by (simp add: resolve_conflicts_def Let_def)
  then have "k \<in> set (fst (resolve_conflicts entries)) \<longleftrightarrow>
          (\<exists>i items. (i, items) \<in> set (group_by_id entries) \<and> k = hd items)"
    by (simp add: image_iff case_prod_beta Bex_def)
  also have "\<dots> \<longleftrightarrow> (\<exists>i. [e \<leftarrow> entries. entry_id e = i] \<noteq> [] \<and>
                        k = hd (sort_key path [e \<leftarrow> entries. entry_id e = i]))"
    by (simp add: group_by_id_iff sort_key_Nil_iff)
  also have "\<dots> \<longleftrightarrow> (\<exists>i \<in> entry_id ` set entries. k = hd (sort_key path [e \<leftarrow> entries. entry_id e = i]))"
    by (auto simp: filter_empty_conv)
  finally show ?thesis .
qed

lemma conflicts_iff:
  "c \<in> set (snd (resolve_conflicts entries)) \<longleftrightarrow>
     (\<exists>i. 2 \<le> length [e \<leftarrow> entries. entry_id e = i] \<and>
          c = \<lparr>conflict_id = i, paths = map path (sort_key path [e \<leftarrow> entries. entry_id e = i])\<rparr>)"
proof -
  have "set (snd (resolve_conflicts entries)) =
          (\<lambda>(i, items). \<lparr>conflict_id = i, paths = map path items\<rparr>) `
             {x \<in> set (group_by_id entries). 1 < length (snd x)}"
    by (simp add: resolve_conflicts_def Let_def case_prod_beta)
  then have "c \<in> set (snd (resolve_conflicts entries)) \<longleftrightarrow>
          (\<exists>i items. (i, items) \<in> set (group_by_id entries) \<and> 1 < length items \<and>
                      c = \<lparr>conflict_id = i, paths = map path items\<rparr>)"
    by (simp add: image_iff case_prod_beta Bex_def)
  also have "\<dots> \<longleftrightarrow> (\<exists>i. 2 \<le> length [e \<leftarrow> entries. entry_id e = i] \<and>
          c = \<lparr>conflict_id = i, paths = map path (sort_key path [e \<leftarrow> entries. entry_id e = i])\<rparr>)"
  proof -
    have "\<And>i. (sort_key path [e \<leftarrow> entries. entry_id e = i] \<noteq> [] \<and>
               1 < length [e \<leftarrow> entries. entry_id e = i])
             \<longleftrightarrow> 2 \<le> length [e \<leftarrow> entries. entry_id e = i]"
      by (auto simp: sort_key_Nil_iff)
    then show ?thesis by (simp add: group_by_id_iff) blast
  qed
  finally show ?thesis .
qed

lemma kept_ids: "map entry_id (map (\<lambda>(project_id, items). hd items) (group_by_id entries))
                   = map fst (group_by_id entries)"
proof -
  have "\<And>i items. (i, items) \<in> set (group_by_id entries) \<Longrightarrow> entry_id (hd items) = i"
  proof -
    fix i items assume a: "(i, items) \<in> set (group_by_id entries)"
    then have items: "items = sort_key path [e \<leftarrow> entries. entry_id e = i]"
      and ne: "[e \<leftarrow> entries. entry_id e = i] \<noteq> []"
      by (auto simp: group_by_id_iff sort_key_Nil_iff)
    from ne have "i \<in> entry_id ` set entries" by (auto simp: filter_empty_conv)
    from group_head(2) [OF this] items show "entry_id (hd items) = i" by simp
  qed
  then show ?thesis by (auto simp: case_prod_beta)
qed

lemma distinct_kept_ids: "distinct (map entry_id (fst (resolve_conflicts entries)))"
proof -
  let ?kept = "map (\<lambda>(project_id, items). hd items) (group_by_id entries)"
  have "mset (fst (resolve_conflicts entries)) = mset ?kept"
    by (simp add: resolve_conflicts_def Let_def)
  then have "mset (map entry_id (fst (resolve_conflicts entries))) = mset (map entry_id ?kept)"
    by (metis mset_map)
  moreover have "distinct (map entry_id ?kept)"
    by (simp only: kept_ids distinct_group_by_id)
  ultimately show ?thesis by (metis mset_eq_imp_distinct_iff)
qed

lemma kept_sorted: "sorted (map (\<lambda>e. (entry_id e, path e)) (fst (resolve_conflicts entries)))"
  by (simp add: resolve_conflicts_def Let_def sorted_sort_key)

lemma conflicts_sorted: "sorted (map conflict_id (snd (resolve_conflicts entries)))"
  by (simp add: resolve_conflicts_def Let_def sorted_sort_key)

text \<open>
  Claim C1. For every list of entries: the kept list is sorted by (id, path) and the
  conflicts by id; every kept entry is an entry of the input whose path is the smallest among
  the entries with its id, and every id of the input has a kept entry; every id that two or
  more entries share has a conflict record; and the paths of every conflict record are the
  paths of all the entries with its id, in ascending order.
\<close>

theorem resolve_conflicts_keeps_smallest_path:
  fixes entries :: "('i::linorder) entry list"
  assumes "resolve_conflicts entries = (kept, conflicts)"
  shows "sorted (map (\<lambda>e. (entry_id e, path e)) kept) \<and>
         sorted (map conflict_id conflicts) \<and>
         (\<forall>k \<in> set kept. k \<in> set entries \<and>
            (\<forall>e \<in> set entries. entry_id e = entry_id k \<longrightarrow> path k \<le> path e)) \<and>
         (\<forall>e \<in> set entries. \<exists>k \<in> set kept. entry_id k = entry_id e) \<and>
         (\<forall>i. 2 \<le> length [e \<leftarrow> entries. entry_id e = i]
            \<longrightarrow> (\<exists>c \<in> set conflicts. conflict_id c = i)) \<and>
         (\<forall>c \<in> set conflicts.
            2 \<le> length (paths c) \<and> sorted (paths c) \<and>
            mset (paths c) = mset (map path [e \<leftarrow> entries. entry_id e = conflict_id c]))"
proof -
  from assms have k: "kept = fst (resolve_conflicts entries)"
    and c: "conflicts = snd (resolve_conflicts entries)" by simp_all
  have 1: "sorted (map (\<lambda>e. (entry_id e, path e)) kept)"
    unfolding k by (rule kept_sorted)
  have 2: "sorted (map conflict_id conflicts)"
    unfolding c by (rule conflicts_sorted)
  have 3: "\<forall>k \<in> set kept. k \<in> set entries \<and>
            (\<forall>e \<in> set entries. entry_id e = entry_id k \<longrightarrow> path k \<le> path e)"
  proof
    fix x assume "x \<in> set kept"
    then obtain i where i: "i \<in> entry_id ` set entries"
      and x: "x = hd (sort_key path [e \<leftarrow> entries. entry_id e = i])"
      unfolding k kept_iff by blast
    from group_head [OF i] x
    show "x \<in> set entries \<and> (\<forall>e \<in> set entries. entry_id e = entry_id x \<longrightarrow> path x \<le> path e)"
      by simp
  qed
  have 4: "\<forall>e \<in> set entries. \<exists>k \<in> set kept. entry_id k = entry_id e"
  proof
    fix e assume "e \<in> set entries"
    then have i: "entry_id e \<in> entry_id ` set entries" by simp
    then have "hd (sort_key path [x \<leftarrow> entries. entry_id x = entry_id e]) \<in> set kept"
      unfolding k kept_iff by blast
    with group_head(2) [OF i] show "\<exists>k \<in> set kept. entry_id k = entry_id e" by blast
  qed
  have 5: "\<forall>i. 2 \<le> length [e \<leftarrow> entries. entry_id e = i]
            \<longrightarrow> (\<exists>c \<in> set conflicts. conflict_id c = i)"
  proof (intro allI impI)
    fix i assume "2 \<le> length [e \<leftarrow> entries. entry_id e = i]"
    then have "\<lparr>conflict_id = i, paths = map path (sort_key path [e \<leftarrow> entries. entry_id e = i])\<rparr>
                 \<in> set conflicts"
      unfolding c conflicts_iff by blast
    then show "\<exists>c \<in> set conflicts. conflict_id c = i"
      by (rule rev_bexI) simp
  qed
  have 6: "\<forall>c \<in> set conflicts.
            2 \<le> length (paths c) \<and> sorted (paths c) \<and>
            mset (paths c) = mset (map path [e \<leftarrow> entries. entry_id e = conflict_id c])"
  proof
    fix x assume "x \<in> set conflicts"
    then obtain i where i: "2 \<le> length [e \<leftarrow> entries. entry_id e = i]"
      and x: "x = \<lparr>conflict_id = i, paths = map path (sort_key path [e \<leftarrow> entries. entry_id e = i])\<rparr>"
      unfolding c conflicts_iff by blast
    have "mset (sort_key path [e \<leftarrow> entries. entry_id e = i]) = mset [e \<leftarrow> entries. entry_id e = i]"
      by simp
    then have "mset (map path (sort_key path [e \<leftarrow> entries. entry_id e = i]))
                 = mset (map path [e \<leftarrow> entries. entry_id e = i])"
      by (metis mset_map)
    with i x show "2 \<le> length (paths x) \<and> sorted (paths x) \<and>
            mset (paths x) = mset (map path [e \<leftarrow> entries. entry_id e = conflict_id x])"
      by (simp add: sorted_sort_key)
  qed
  from 1 2 3 4 5 6 show ?thesis by blast
qed

text \<open>
  Two entries with the same id at \<^verbatim>\<open>/a/zeta\<close> and \<^verbatim>\<open>/a/alpha\<close>: the entry at \<^verbatim>\<open>/a/alpha\<close>
  is kept and the conflict record lists \<^verbatim>\<open>["/a/alpha", "/a/zeta"]\<close>.
\<close>

theorem resolve_conflicts_zeta_alpha:
  "resolve_conflicts zeta_alpha
     = ([plain_entry ''dup'' ''/a/alpha'' (JStr ''a'') 2],
        [\<lparr>conflict_id = ''dup'', paths = [''/a/alpha'', ''/a/zeta'']\<rparr>]) \<and>
   plain_entry ''dup'' ''/a/alpha'' (JStr ''a'') 2 \<in> set zeta_alpha \<and>
   sorted [''/a/alpha'', ''/a/zeta'']"
proof -
  have r: "resolve_conflicts zeta_alpha
     = ([plain_entry ''dup'' ''/a/alpha'' (JStr ''a'') 2],
        [\<lparr>conflict_id = ''dup'', paths = [''/a/alpha'', ''/a/zeta'']\<rparr>])"
    by code_simp
  from resolve_conflicts_keeps_smallest_path [OF r] r show ?thesis by simp
qed

text \<open>
  Claim C10. The ids of the kept entries are pairwise distinct, every kept entry is an entry
  of the input, the kept entries have exactly the ids of the input, and the paths of every
  conflict record start with the path of the kept entry of its id and go on with at least
  one more.
\<close>

theorem resolve_conflicts_one_per_id:
  fixes entries :: "('i::linorder) entry list"
  assumes "resolve_conflicts entries = (kept, conflicts)"
  shows "distinct (map entry_id kept) \<and>
         set kept \<subseteq> set entries \<and>
         entry_id ` set kept = entry_id ` set entries \<and>
         (\<forall>c \<in> set conflicts. \<exists>k \<in> set kept. \<exists>rest.
            entry_id k = conflict_id c \<and> paths c = path k # rest \<and> rest \<noteq> [])"
proof -
  from assms have k: "kept = fst (resolve_conflicts entries)"
    and c: "conflicts = snd (resolve_conflicts entries)" by simp_all
  have 1: "distinct (map entry_id kept)"
    unfolding k by (rule distinct_kept_ids)
  have mem: "\<And>x. x \<in> set kept \<Longrightarrow> x \<in> set entries"
  proof -
    fix x assume "x \<in> set kept"
    then obtain i where i: "i \<in> entry_id ` set entries"
      and x: "x = hd (sort_key path [e \<leftarrow> entries. entry_id e = i])"
      unfolding k kept_iff by blast
    from group_head(1) [OF i] x show "x \<in> set entries" by simp
  qed
  then have 2: "set kept \<subseteq> set entries" by blast
  have "entry_id ` set entries \<subseteq> entry_id ` set kept"
  proof
    fix i assume i: "i \<in> entry_id ` set entries"
    then have "hd (sort_key path [x \<leftarrow> entries. entry_id x = i]) \<in> set kept"
      unfolding k kept_iff by blast
    with group_head(2) [OF i] show "i \<in> entry_id ` set kept" by force
  qed
  with 2 have 3: "entry_id ` set kept = entry_id ` set entries" by blast
  have 4: "\<forall>c \<in> set conflicts. \<exists>k \<in> set kept. \<exists>rest.
            entry_id k = conflict_id c \<and> paths c = path k # rest \<and> rest \<noteq> []"
  proof
    fix x assume "x \<in> set conflicts"
    then obtain i where i: "2 \<le> length [e \<leftarrow> entries. entry_id e = i]"
      and x: "x = \<lparr>conflict_id = i, paths = map path (sort_key path [e \<leftarrow> entries. entry_id e = i])\<rparr>"
      unfolding c conflicts_iff by blast
    let ?items = "sort_key path [e \<leftarrow> entries. entry_id e = i]"
    from i have "2 \<le> length ?items" by simp
    then obtain a b bs where items: "?items = a # b # bs"
      by (cases ?items; cases "tl ?items") auto
    from i have "[e \<leftarrow> entries. entry_id e = i] \<noteq> []" by auto
    then have iin: "i \<in> entry_id ` set entries" by (auto simp: filter_empty_conv)
    then have "hd ?items \<in> set kept" unfolding k kept_iff by blast
    with items have "a \<in> set kept" by simp
    moreover from group_head(2) [OF iin] items have "entry_id a = i" by simp
    ultimately show "\<exists>k \<in> set kept. \<exists>rest.
            entry_id k = conflict_id x \<and> paths x = path k # rest \<and> rest \<noteq> []"
      using x items by (intro bexI[of _ a] exI[of _ "map path (b # bs)"]) simp_all
  qed
  from 1 2 3 4 show ?thesis by blast
qed

text \<open>
  Three entries, two of them with the id \<^verbatim>\<open>web\<close>: two are kept, with distinct ids, and the
  conflict record of \<^verbatim>\<open>web\<close> starts with the kept path \<^verbatim>\<open>/src/web1\<close>.
\<close>

theorem resolve_conflicts_three_entries:
  "resolve_conflicts three_entries
     = ([plain_entry ''api'' ''/src/api'' (JStr ''a'') 2, plain_entry ''web'' ''/src/web1'' (JStr ''v'') 3],
        [\<lparr>conflict_id = ''web'', paths = [''/src/web1'', ''/src/web2'']\<rparr>]) \<and>
   distinct [''api'', ''web'']"
proof -
  have r: "resolve_conflicts three_entries
     = ([plain_entry ''api'' ''/src/api'' (JStr ''a'') 2, plain_entry ''web'' ''/src/web1'' (JStr ''v'') 3],
        [\<lparr>conflict_id = ''web'', paths = [''/src/web1'', ''/src/web2'']\<rparr>])"
    by code_simp
  from resolve_conflicts_one_per_id [OF r] r show ?thesis by (simp add: plain_entry_def)
qed

section \<open>Properties of the scanner\<close>

lemma is_dir_hollow [simp]: "is_dir (hollow node) = is_dir node"
  by (cases node) auto

lemma hollow_hollow [simp]: "hollow (hollow node) = hollow node"
  by (cases node) auto

lemma is_dir_without_skipped [simp]: "is_dir (without_skipped node) = is_dir node"
  by (cases node) auto

lemma hollow_without_skipped [simp]: "hollow (without_skipped node) = hollow node"
  by (cases node) auto

lemma is_dir_sealed [simp]: "is_dir (sealed node) = is_dir node"
  by (cases node) auto

lemma hollow_sealed [simp]: "hollow (sealed node) = hollow node"
  by (cases node) auto

lemma load_json_hollow: "load_json p (Some (hollow node)) = load_json p (Some node)"
  by (cases node) auto

lemma st_mtime_hollow: "st_mtime (hollow node) = st_mtime node"
  by (cases node) auto

lemma scan_repo_hollow:
  assumes "map_option hollow (map_of cs ''project.metadata.json'')
             = map_option hollow (map_of cs' ''project.metadata.json'')"
  shows "scan_repo E strict current cs st = scan_repo E strict current cs' st"
proof (cases "map_of cs ''project.metadata.json''")
  case None
  with assms have "map_of cs' ''project.metadata.json'' = None" by simp
  with None show ?thesis by (simp add: scan_repo_def)
next
  case (Some node)
  with assms obtain node' where n': "map_of cs' ''project.metadata.json'' = Some node'"
    and h: "hollow node = hollow node'" by (cases "map_of cs' ''project.metadata.json''") auto
  from h have "load_json p (Some node) = load_json p (Some node')" for p
    by (metis load_json_hollow)
  moreover from h have "st_mtime node = st_mtime node'" by (metis st_mtime_hollow)
  ultimately show ?thesis using Some n'
    by (simp add: scan_repo_def cong: prod.case_cong sum.case_cong option.case_cong)
qed

lemma dirs_without_skipped:
  "map fst [c \<leftarrow> without_skipped_children cs. is_dir (snd c)] = map fst [c \<leftarrow> cs. is_dir (snd c)]"
  "map fst [c \<leftarrow> without_skipped_children cs. \<not> is_dir (snd c)] = map fst [c \<leftarrow> cs. \<not> is_dir (snd c)]"
  by (induction cs) auto

lemma map_of_without_skipped:
  "map_option hollow (map_of (without_skipped_children cs) k) = map_option hollow (map_of cs k)"
  by (induction cs) auto

lemma scan_walk_unfold:
  "scan_walk E strict current (Dir children) st =
     (if has_repo children then scan_repo E strict current children st
      else scan_subdirs E strict current [d \<leftarrow> children. is_dir (snd d) \<and> fst d \<notin> SKIP_DIRS] st)"
  by (auto simp: has_repo_def Let_def split: sum.splits)

lemma has_repo_without_skipped: "has_repo (without_skipped_children cs) = has_repo cs"
  by (simp add: has_repo_def dirs_without_skipped)

lemma scan_without_skipped:
  "scan_walk E strict current (without_skipped node) st = scan_walk E strict current node st"
  "scan_subdirs E strict current
     [d \<leftarrow> without_skipped_children cs. is_dir (snd d) \<and> fst d \<notin> SKIP_DIRS] st
   = scan_subdirs E strict current [d \<leftarrow> cs. is_dir (snd d) \<and> fst d \<notin> SKIP_DIRS] st"
proof (induction node and cs arbitrary: current st and current st
    rule: without_skipped_without_skipped_children.induct)
  case (1 content mtime)
  show ?case by simp
next
  case (2 children)
  show ?case
    using 2 scan_repo_hollow [OF map_of_without_skipped]
    by (simp add: scan_walk_unfold has_repo_without_skipped del: scan_walk.simps)
next
  case 3
  show ?case by simp
next
  case (4 name sub rest)
  then show ?case by (simp cong: sum.case_cong)
qed







lemma scan_repo_result:
  assumes "scan_repo E strict current children (es, ws) = Inr (es', ws')"
  shows "(es' = es \<or> (\<exists>e. es' = es @ [e] \<and> path e = current)) \<and>
         (ws' = ws \<or> (\<exists>w. ws' = ws @ [w] \<and> warn_path w = path_join current ''project.metadata.json''))"
  using assms
  by (auto simp: scan_repo_def make_entry_def Let_def
      split: option.splits prod.splits sum.splits if_splits)

lemma load_json_message:
  "load_json p (Some node) = (data, Some err) \<Longrightarrow> take 9 err = ''invalid j''"
  by (cases "(p, Some node)" rule: load_json.cases) auto

lemma missing_required_message:
  "missing_required data keys = Inr (Some key) \<Longrightarrow> key \<in> set keys"
  by (induction keys) (auto split: sum.splits bool.splits)

lemma entrypoints_items_message:
  "entrypoints_items items = Some m \<Longrightarrow> m = ''entrypoints keys and values must be strings''"
  by (induction items rule: entrypoints_items.induct) (auto split: if_splits)

lemma check_optional_str_message:
  "check_optional_str kvs keys = Some m \<Longrightarrow> \<exists>key \<in> set keys. m = key @ '' must be string''"
  by (induction keys) (auto split: option.splits if_splits)

lemma check_str_arrays_message:
  "check_str_arrays kvs keys = Some m \<Longrightarrow> \<exists>key \<in> set keys. m = key @ '' must be array of strings''"
  by (induction keys) (auto split: option.splits if_splits)

lemma check_entrypoints_message:
  assumes "check_entrypoints kvs = Some m"
  shows "m = ''entrypoints keys and values must be strings'' \<or> m = ''entrypoints must be object''"
proof (cases "map_of kvs ''entrypoints''")
  case None
  with assms show ?thesis by (simp add: check_entrypoints_def)
next
  case (Some v)
  with assms show ?thesis
    by (cases v) (auto simp: check_entrypoints_def dest: entrypoints_items_message)
qed

lemma check_extras_message:
  "check_extras kvs = Some m \<Longrightarrow> take 9 m = ''unexpecte''"
  by (auto simp: check_extras_def split: if_splits)

lemma validate_fields_cases:
  assumes "validate_fields kvs = Some m"
  shows "m = ''id must be string'' \<or> m = pattern_message
    \<or> m = ''one_liner must be string'' \<or> m = ''one_liner exceeds 120 chars''
    \<or> check_optional_str kvs [''title''] = Some m
    \<or> check_str_arrays kvs [''tags'', ''stack''] = Some m
    \<or> check_entrypoints kvs = Some m \<or> check_extras kvs = Some m"
  using assms unfolding validate_fields_def
  by (auto simp del: check_optional_str.simps check_str_arrays.simps ID_RE_match.simps
      split: option.splits if_splits)

lemma validate_fields_message:
  assumes "validate_fields kvs = Some m"
  shows "take 9 m \<noteq> ''missing: ''"
proof -
  have 1: "take 9 m \<noteq> ''missing: ''" if "check_optional_str kvs [''title''] = Some m"
    using check_optional_str_message [OF that] by auto
  have 2: "take 9 m \<noteq> ''missing: ''" if "check_str_arrays kvs [''tags'', ''stack''] = Some m"
    using check_str_arrays_message [OF that] by auto
  have 3: "take 9 m \<noteq> ''missing: ''" if "check_entrypoints kvs = Some m"
    using check_entrypoints_message [OF that] by auto
  have 4: "take 9 m \<noteq> ''missing: ''" if "check_extras kvs = Some m"
    using check_extras_message [OF that] by auto
  have 5: "take 9 m \<noteq> ''missing: ''"
    if "m = ''id must be string'' \<or> m = pattern_message
        \<or> m = ''one_liner must be string'' \<or> m = ''one_liner exceeds 120 chars''"
    using that by (auto simp: pattern_message_def)
  from validate_fields_cases [OF assms] 1 2 3 4 5 show ?thesis by blast
qed

lemma validate_manual_message:
  assumes "validate_metadata_manual data = Inr (Some m)"
  shows "take 9 m \<noteq> ''missing: ''"
proof (cases "missing_required data [''id'', ''one_liner'']")
  case (Inl exc)
  with assms show ?thesis by (simp add: validate_metadata_manual_def)
next
  case (Inr found)
  show ?thesis
  proof (cases found)
    case None
    with Inr assms obtain kvs where "validate_fields kvs = Some m"
      by (cases data) (auto simp: validate_metadata_manual_def)
    then show ?thesis by (rule validate_fields_message)
  next
    case (Some key)
    with Inr have "key \<in> set [''id'', ''one_liner'']" by (metis missing_required_message)
    moreover from Some Inr assms have "m = ''missing required field: '' @ key"
      by (simp add: validate_metadata_manual_def)
    ultimately show ?thesis by auto
  qed
qed

lemma validate_schema_message:
  assumes "validate_metadata_schema E data = Inr (Some m)"
  shows "take 9 m \<noteq> ''missing: ''"
proof (cases "jsonschema E")
  case None
  with assms show ?thesis by (simp add: validate_metadata_schema_def validate_manual_message)
next
  case (Some validate)
  with assms show ?thesis
    by (auto simp: validate_metadata_schema_def split: prod.splits option.splits)
qed

lemma scan_repo_warnings:
  assumes "scan_repo E strict current children st = Inr st'"
    and "\<forall>w \<in> set (snd st). take 9 (message w) \<noteq> ''missing: ''"
  shows "\<forall>w \<in> set (snd st'). take 9 (message w) \<noteq> ''missing: ''"
  using assms
  by (auto simp: scan_repo_def Let_def
      dest!: load_json_message validate_schema_message
      split: option.splits prod.splits sum.splits if_splits)

lemma scan_walk_warnings:
  "scan_walk E strict current node st = Inr st' \<Longrightarrow>
     \<forall>w \<in> set (snd st). take 9 (message w) \<noteq> ''missing: '' \<Longrightarrow>
     \<forall>w \<in> set (snd st'). take 9 (message w) \<noteq> ''missing: ''"
  "scan_subdirs E strict current ds st = Inr st' \<Longrightarrow>
     \<forall>w \<in> set (snd st). take 9 (message w) \<noteq> ''missing: '' \<Longrightarrow>
     \<forall>w \<in> set (snd st'). take 9 (message w) \<noteq> ''missing: ''"
proof (induction E strict current node st and E strict current ds st arbitrary: st' and st'
    rule: scan_walk_scan_subdirs.induct)
  case (1 E strict current content mtime st)
  then show ?case by simp
next
  case (2 E strict current children st)
  show ?case
  proof (cases "has_repo children")
    case True
    with "2.prems" show ?thesis
      by (simp add: scan_walk_unfold del: scan_walk.simps) (metis scan_repo_warnings)
  next
    case False
    from False "2.prems"(1) have "scan_subdirs E strict current
        [d \<leftarrow> [c \<leftarrow> children. is_dir (snd c)]. fst d \<notin> SKIP_DIRS] st = Inr st'"
      by (simp add: scan_walk_unfold del: scan_walk.simps)
    moreover from False have "\<not> is_repo_root (map fst [c \<leftarrow> children. is_dir (snd c)])
        (map fst [c \<leftarrow> children. \<not> is_dir (snd c)])" by (simp add: has_repo_def)
    ultimately show ?thesis
      using "2.IH" [OF refl refl refl refl, of st st'] "2.prems"(2) by simp
  qed
next
  case (3 E strict current st)
  then show ?case by simp
next
  case (4 E strict current name sub rest st)
  from "4.prems"(1) obtain st1 where 1: "scan_walk E strict (path_join current name) sub st = Inr st1"
    and 2: "scan_subdirs E strict current rest st1 = Inr st'"
    by (auto split: sum.splits)
  from "4.IH"(1) [OF 1 "4.prems"(2)] "4.IH"(2) [OF 1 2] show ?case by blast
qed



text \<open>
  Claim C7. The scan of a tree is the scan of the tree with every denylisted directory
  emptied, at every depth and whether or not its parent is a repository root: nothing inside
  a directory named in \<^const>\<open>SKIP_DIRS\<close> is looked at, a metadata file included.
\<close>

theorem denylisted_directories_are_not_scanned:
  "scan_projects E strict root (without_skipped tree) = scan_projects E strict root tree"
  by (simp add: scan_projects_def scan_without_skipped(1))

text \<open>
  Metadata inside \<^verbatim>\<open>.git\<close> and inside \<^verbatim>\<open>node_modules\<close> (itself a repository root, with
  another beneath) yields nothing; the only entry is the repository beside them.
\<close>

theorem denylisted_directories_example:
  "\<forall>d. scan_projects (manual_env d) False ''/root'' skipped_repos = Inr ([proj1_entry], [])"
proof
  fix d
  have "scan_projects (manual_env d) False ''/root'' (without_skipped skipped_repos)
          = Inr ([proj1_entry], [])"
    by code_simp
  with denylisted_directories_are_not_scanned [of "manual_env d" False "''/root''" skipped_repos]
  show "scan_projects (manual_env d) False ''/root'' skipped_repos = Inr ([proj1_entry], [])"
    by simp
qed

text \<open>
  Claim C8. At a repository root with no \<^verbatim>\<open>project.metadata.json\<close> the visit leaves the
  entries and the warnings as they were; and no warning of a scan carries the loader's
  reason for a missing file, which starts with \<^verbatim>\<open>missing: \<close>.
\<close>

theorem missing_metadata_is_skipped:
  "(has_repo children \<and> map_of children ''project.metadata.json'' = None
      \<longrightarrow> scan_walk E strict current (Dir children) st = Inr st) \<and>
   (scan_projects E strict root tree = Inr (entries, warnings)
      \<longrightarrow> (\<forall>w \<in> set warnings. take 9 (message w) \<noteq> ''missing: ''))"
proof (intro conjI impI)
  assume "has_repo children \<and> map_of children ''project.metadata.json'' = None"
  then show "scan_walk E strict current (Dir children) st = Inr st"
    by (simp add: scan_walk_unfold scan_repo_def del: scan_walk.simps)
next
  assume "scan_projects E strict root tree = Inr (entries, warnings)"
  from scan_walk_warnings(1) [OF this [unfolded scan_projects_def]]
  show "\<forall>w \<in> set warnings. take 9 (message w) \<noteq> ''missing: ''" by simp
qed

text \<open>
  A repository root without metadata beside one with malformed metadata: only the second
  gives a warning.
\<close>

theorem missing_metadata_example:
  "\<forall>d. scan_walk (manual_env d) False ''/root/bare''
          (Dir [(''.git'', Dir []), (''README.md'', File (Inl ''Expecting value'') 1)]) ([], [])
        = Inr ([], []) \<and>
       scan_projects (manual_env d) False ''/root'' bare_repo_and_bad_repo
        = Inr ([], [\<lparr>warn_path = ''/root/bad/project.metadata.json'',
                      message = ''invalid json: Expecting value''\<rparr>])"
proof
  fix d
  let ?children = "[(''.git'', Dir []), (''README.md'', File (Inl ''Expecting value'') 1)]"
  have h: "has_repo ?children \<and> map_of ?children ''project.metadata.json'' = None"
    by code_simp
  have s: "scan_projects (manual_env d) False ''/root'' bare_repo_and_bad_repo
        = Inr ([], [\<lparr>warn_path = ''/root/bad/project.metadata.json'',
                      message = ''invalid json: Expecting value''\<rparr>])"
    by code_simp
  from missing_metadata_is_skipped [THEN conjunct1, rule_format, OF h] s
  show "scan_walk (manual_env d) False ''/root/bare'' (Dir ?children) ([], []) = Inr ([], []) \<and>
       scan_projects (manual_env d) False ''/root'' bare_repo_and_bad_repo
        = Inr ([], [\<lparr>warn_path = ''/root/bad/project.metadata.json'',
                      message = ''invalid json: Expecting value''\<rparr>])"
    by simp
qed

text \<open>
  Claim C3 fails on the code. With the manual rule set, a metadata file whose content is the
  number \<^verbatim>\<open>5\<close> makes \<^verbatim>\<open>key not in data\<close> raise \<^verbatim>\<open>TypeError\<close>, and the list
  \<^verbatim>\<open>["id", "one_liner"]\<close> passes the loop over the required keys and makes \<^verbatim>\<open>data.get\<close>
  raise \<^verbatim>\<open>AttributeError\<close>: the non-strict scan ends with the exception and records no
  warning. A list without the required keys is reported as a warning.
\<close>

theorem non_object_metadata_crashes_scan:
  "\<forall>d. scan_projects (manual_env d) False ''/root'' bare_number_repo = Inl TypeError \<and>
       scan_projects (manual_env d) False ''/root'' id_list_repo = Inl AttributeError \<and>
       scan_projects (manual_env d) False ''/root'' short_list_repo
         = Inr ([], [\<lparr>warn_path = ''/root/lst/project.metadata.json'',
                       message = ''missing required field: id''\<rparr>])"
  by (intro allI) code_simp

text \<open>
  Claim C2 fails on the code, from the same defect. The tree has one repository whose
  metadata fails to load and one whose metadata is the number \<^verbatim>\<open>5\<close>. Strict mode aborts
  at the first; the non-strict run ends with \<^verbatim>\<open>TypeError\<close> at the second, before
  \<^verbatim>\<open>write_manifest\<close>, with exit code 1.
\<close>

theorem non_strict_run_crashes_without_manifest:
  "\<forall>d now. main (manual_env d) True ''/root'' now bad_then_number
               = Raised (SystemExit ''invalid json: Expecting value'') \<and>
           main (manual_env d) False ''/root'' now bad_then_number = Raised TypeError \<and>
           exit_code (main (manual_env d) False ''/root'' now bad_then_number) = Some 1"
  by (intro allI) code_simp

section \<open>Independence of the listing order\<close>

lemma scan_sites_append:
  "scan_sites E strict (xs @ ys) st =
     (case scan_sites E strict xs st of Inl exc \<Rightarrow> Inl exc | Inr st' \<Rightarrow> scan_sites E strict ys st')"
  by (induction xs arbitrary: st) (auto split: sum.splits)

lemma scan_walk_sites:
  "scan_walk E strict current node st = scan_sites E strict (repo_sites current node) st"
  "scan_subdirs E strict current [d \<leftarrow> cs. is_dir (snd d) \<and> fst d \<notin> SKIP_DIRS] st
     = scan_sites E strict (sites_in current cs) st"
proof (induction current node and current cs arbitrary: st and st rule: repo_sites_sites_in.induct)
  case (1 current content mtime)
  show ?case by simp
next
  case (2 current children)
  then show ?case
    by (simp add: scan_walk_unfold del: scan_walk.simps split: sum.splits)
next
  case (3 current)
  show ?case by simp
next
  case (4 current name sub rest)
  then show ?case
    by (simp add: scan_sites_append cong: sum.case_cong)
qed

text \<open>What a visit adds to an empty state.\<close>

lemma scan_repo_state:
  "scan_repo E strict current children (es, ws) =
     (case scan_repo E strict current children ([], []) of
        Inl exc \<Rightarrow> Inl exc
      | Inr (des, dws) \<Rightarrow> Inr (es @ des, ws @ dws))"
  by (simp add: scan_repo_def Let_def split: option.splits prod.splits sum.splits)

lemma scan_repo_visit:
  "scan_repo E strict current children ([], []) = visit E strict (site_key (current, children))"
proof -
  have "map_option hollow (map_of children ''project.metadata.json'')
          = map_option hollow (map_of (key_children (map_option hollow
              (map_of children ''project.metadata.json''))) ''project.metadata.json'')"
    by (cases "map_of children ''project.metadata.json''") simp_all
  from scan_repo_hollow [OF this] show ?thesis
    by (simp add: visit_def site_key_def)
qed

lemma scan_sites_iff:
  "scan_sites E strict sites (es, ws) = Inr (es', ws') \<longleftrightarrow>
     (\<forall>k \<in> set (map site_key sites). isl (visit E strict k) = False) \<and>
     es' = es @ concat (map (\<lambda>k. found_entries (visit E strict k)) (map site_key sites)) \<and>
     ws' = ws @ concat (map (\<lambda>k. found_warnings (visit E strict k)) (map site_key sites))"
proof (induction sites arbitrary: es ws)
  case Nil
  show ?case by auto
next
  case (Cons site sites)
  obtain current children where site: "site = (current, children)" by (cases site)
  show ?case
  proof (cases "visit E strict (site_key (current, children))")
    case (Inl exc)
    then show ?thesis
      using site by (subst scan_sites.simps(2) [of E strict current children sites, folded site]
          | simp add: scan_repo_state [of E strict current children es ws] scan_repo_visit)+
  next
    case (Inr d)
    obtain des dws where d: "d = (des, dws)" by (cases d)
    have "scan_sites E strict (site # sites) (es, ws) = scan_sites E strict sites (es @ des, ws @ dws)"
      using site Inr d
      by (simp add: scan_repo_state [of E strict current children es ws] scan_repo_visit)
    then show ?thesis
      using Inr d site Cons.IH [of "es @ des" "ws @ dws"] by auto
  qed
qed

lemma mset_concat_map_cong:
  assumes "mset xs = mset ys"
  shows "mset (concat (map f xs)) = mset (concat (map f ys))"
proof -
  have "mset (concat (map f zs)) = sum_mset (image_mset (\<lambda>x. mset (f x)) (mset zs))" for zs
    by (induction zs) simp_all
  with assms show ?thesis by simp
qed

lemma scan_sites_permuted:
  assumes "mset (map site_key sites') = mset (map site_key sites)"
    and "scan_sites E strict sites ([], []) = Inr (es, ws)"
  shows "\<exists>es' ws'. scan_sites E strict sites' ([], []) = Inr (es', ws') \<and> mset es' = mset es"
proof -
  from assms(1) have "set (map site_key sites') = set (map site_key sites)"
    by (rule mset_eq_setD)
  moreover note mset_concat_map_cong [OF assms(1), of "\<lambda>k. found_entries (visit E strict k)"]
  ultimately show ?thesis
    using assms(2) unfolding scan_sites_iff [of E strict _ "[]" "[]"] by simp
qed

lemma is_dir_canonical [simp]: "is_dir (canonical node) = is_dir node"
  by (cases node) auto

lemma hollow_canonical [simp]: "hollow (canonical node) = hollow node"
  by (cases node) auto

lemma names_canonical_children [simp]: "map fst (canonical_children cs) = map fst cs"
  by (induction cs) auto

lemma map_of_canonical_children:
  "map_option hollow (map_of (canonical_children cs) k) = map_option hollow (map_of cs k)"
  by (induction cs) auto

lemma has_repo_iff: "has_repo cs \<longleftrightarrow> ''.git'' \<in> fst ` set cs"
  by (induction cs) (auto simp: has_repo_def is_repo_root_def)

lemma has_repo_canonical: "has_repo (sort_key fst (canonical_children cs)) = has_repo cs"
proof -
  have "set (map fst (canonical_children cs)) = set (map fst cs)"
    by (simp only: names_canonical_children)
  then show ?thesis by (simp add: has_repo_iff del: names_canonical_children)
qed

lemma map_of_sort_key:
  assumes "distinct (map fst xs)"
  shows "map_of (sort_key fst xs) = map_of xs"
proof -
  have "mset (map fst (sort_key fst xs)) = mset (map fst xs)"
    by simp
  then have "distinct (map fst (sort_key fst xs)) = distinct (map fst xs)"
    by (rule mset_eq_imp_distinct_iff)
  with assms show ?thesis by (simp add: map_of_inject_set)
qed

lemma sites_in_concat: "sites_in current cs = concat (map (child_sites current) cs)"
  by (induction cs) auto

lemma sites_in_permuted: "mset xs = mset ys \<Longrightarrow> mset (sites_in current xs) = mset (sites_in current ys)"
  unfolding sites_in_concat by (rule mset_concat_map_cong)

lemma sites_canonical:
  "wf_tree node \<Longrightarrow>
     mset (map site_key (repo_sites current (canonical node))) = mset (map site_key (repo_sites current node))"
  "wf_children cs \<Longrightarrow>
     mset (map site_key (sites_in current (canonical_children cs))) = mset (map site_key (sites_in current cs))"
proof (induction node and cs arbitrary: current and current rule: canonical_canonical_children.induct)
  case (1 content mtime)
  show ?case by simp
next
  case (2 children)
  let ?cc = "canonical_children children"
  from "2.prems" have d: "distinct (map fst ?cc)" and wf: "wf_children children" by simp_all
  show ?case
  proof (cases "has_repo children")
    case True
    have "map_option hollow (map_of (sort_key fst ?cc) ''project.metadata.json'')
            = map_option hollow (map_of children ''project.metadata.json'')"
      by (simp add: map_of_sort_key [OF d] map_of_canonical_children)
    with True show ?thesis by (simp add: has_repo_canonical site_key_def)
  next
    case False
    have "mset (sites_in current (sort_key fst ?cc)) = mset (sites_in current ?cc)"
      by (rule sites_in_permuted) simp
    then have "mset (map site_key (sites_in current (sort_key fst ?cc)))
                 = mset (map site_key (sites_in current ?cc))"
      by (metis mset_map)
    with False "2.IH" [OF wf] show ?thesis by (simp add: has_repo_canonical)
  qed
next
  case 3
  show ?case by simp
next
  case (4 name sub rest)
  then show ?case by simp
qed

declare child_sites.simps [simp del]

lemma path_join_valid: "valid_name name \<Longrightarrow> path_join p name = base p @ name"
  by (cases name) (auto simp: valid_name_def path_join_def base_def)

lemma good_path_join:
  assumes "valid_name name"
  shows "good_path (path_join p name)"
proof -
  from assms have ne: "name \<noteq> []" and ns: "CHR ''/'' \<notin> set name"
    by (simp_all add: valid_name_def)
  from last_in_set [OF ne] ns have "last name \<noteq> CHR ''/''" by metis
  with ne show ?thesis by (simp add: path_join_valid [OF assms] good_path_def)
qed

lemma base_good: "good_path p \<Longrightarrow> base p = p @ ''/''"
  by (simp add: good_path_def base_def)

lemma name_of_prefix:
  assumes "CHR ''/'' \<notin> set n" "r = [] \<or> hd r = CHR ''/''"
  shows "takeWhile (\<lambda>c. c \<noteq> CHR ''/'') (n @ r) = n"
proof -
  from assms(2) have "takeWhile (\<lambda>c. c \<noteq> CHR ''/'') r = []"
    by (cases r) auto
  moreover from assms(1) have "\<And>c. c \<in> set n \<Longrightarrow> c \<noteq> CHR ''/''" by auto
  ultimately show ?thesis by simp
qed

lemma names_split:
  assumes "n1 @ r1 = n2 @ r2"
    and "CHR ''/'' \<notin> set n1" "CHR ''/'' \<notin> set n2"
    and "r1 = [] \<or> hd r1 = CHR ''/''" "r2 = [] \<or> hd r2 = CHR ''/''"
  shows "n1 = n2"
  using name_of_prefix [OF assms(2,4)] name_of_prefix [OF assms(3,5)] assms(1) by simp

lemma sites_below:
  "wf_tree node \<Longrightarrow> good_path current \<Longrightarrow> p \<in> fst ` set (repo_sites current node) \<Longrightarrow>
     \<exists>r. p = current @ r \<and> (r = [] \<or> hd r = CHR ''/'')"
  "wf_children cs \<Longrightarrow> good_path current \<Longrightarrow> p \<in> fst ` set (sites_in current cs) \<Longrightarrow>
     \<exists>r. p = current @ r \<and> (r = [] \<or> hd r = CHR ''/'')"
proof (induction current node and current cs rule: repo_sites_sites_in.induct)
  case (1 current content mtime)
  then show ?case by simp
next
  case (2 current children)
  show ?case
  proof (cases "has_repo children")
    case True
    with "2.prems" show ?thesis by simp
  next
    case False
    with "2.prems" "2.IH" show ?thesis by simp
  qed
next
  case (3 current)
  then show ?case by simp
next
  case (4 current name sub rest)
  from "4.prems"(1) have v: "valid_name name" and wfs: "wf_tree sub" and wfr: "wf_children rest"
    by simp_all
  from "4.prems"(3) consider
    (here) "is_dir sub \<and> name \<notin> SKIP_DIRS" "p \<in> fst ` set (repo_sites (path_join current name) sub)"
    | (there) "p \<in> fst ` set (sites_in current rest)"
    by (cases "is_dir sub \<and> name \<notin> SKIP_DIRS") auto
  then show ?case
  proof cases
    case here
    from "4.IH"(1) [OF here(1) wfs good_path_join [OF v] here(2)]
    obtain r where "p = path_join current name @ r" "r = [] \<or> hd r = CHR ''/''" by blast
    with v "4.prems"(2) have "p = current @ (''/'' @ name @ r)"
      by (simp add: path_join_valid base_good)
    then show ?thesis by (metis append_Cons list.sel(1))
  next
    case there
    from "4.IH"(2) [OF wfr "4.prems"(2) there] show ?thesis .
  qed
qed

lemma child_sites_below:
  assumes "valid_name name" "wf_tree sub" "p \<in> fst ` set (child_sites current (name, sub))"
  shows "\<exists>r. p = base current @ name @ r \<and> (r = [] \<or> hd r = CHR ''/'')"
proof -
  from assms(3) have "p \<in> fst ` set (repo_sites (path_join current name) sub)"
    by (cases "is_dir sub \<and> name \<notin> SKIP_DIRS") (simp_all add: child_sites.simps)
  from sites_below(1) [OF assms(2) good_path_join [OF assms(1)] this]
  show ?thesis by (simp add: path_join_valid [OF assms(1)])
qed

lemma wf_children_member:
  "wf_children cs \<Longrightarrow> (name, sub) \<in> set cs \<Longrightarrow> valid_name name \<and> wf_tree sub"
  by (induction cs) auto

lemma sites_in_member:
  "p \<in> fst ` set (sites_in current cs) \<Longrightarrow>
     \<exists>c \<in> set cs. p \<in> fst ` set (child_sites current c)"
  by (auto simp: sites_in_concat)

lemma distinct_sites:
  "wf_tree node \<Longrightarrow> distinct (map fst (repo_sites current node))"
  "wf_children cs \<Longrightarrow> distinct (map fst cs) \<Longrightarrow> distinct (map fst (sites_in current cs))"
proof (induction current node and current cs rule: repo_sites_sites_in.induct)
  case (1 current content mtime)
  show ?case by simp
next
  case (2 current children)
  then show ?case by simp
next
  case (3 current)
  show ?case by simp
next
  case (4 current name sub rest)
  from "4.prems" have v: "valid_name name" and wfs: "wf_tree sub" and wfr: "wf_children rest"
    and fresh: "name \<notin> fst ` set rest" and dr: "distinct (map fst rest)"
    by simp_all
  have disjoint: "fst ` set (child_sites current (name, sub)) \<inter> fst ` set (sites_in current rest) = {}"
  proof (rule ccontr)
    assume "\<not> ?thesis"
    then obtain p where p1: "p \<in> fst ` set (child_sites current (name, sub))"
      and p2: "p \<in> fst ` set (sites_in current rest)" by blast
    from sites_in_member [OF p2] obtain name' sub' where c: "(name', sub') \<in> set rest"
      and p3: "p \<in> fst ` set (child_sites current (name', sub'))" by (metis surj_pair)
    from wf_children_member [OF wfr c] have v': "valid_name name'" and wfs': "wf_tree sub'"
      by simp_all
    from child_sites_below [OF v wfs p1] obtain r where
      r: "p = base current @ name @ r" "r = [] \<or> hd r = CHR ''/''" by blast
    from child_sites_below [OF v' wfs' p3] obtain r' where
      r': "p = base current @ name' @ r'" "r' = [] \<or> hd r' = CHR ''/''" by blast
    from r(1) r'(1) have "name @ r = name' @ r'" by simp
    from names_split [OF this _ _ r(2) r'(2)] v v' have "name = name'"
      by (simp add: valid_name_def)
    with c fresh show False by force
  qed
  have "distinct (map fst (child_sites current (name, sub)))"
  proof (cases "is_dir sub \<and> name \<notin> SKIP_DIRS")
    case True
    from "4.IH"(1) [OF True wfs] True show ?thesis by (simp add: child_sites.simps)
  next
    case False
    then show ?thesis by (auto simp: child_sites.simps)
  qed
  moreover have "distinct (map fst (sites_in current rest))"
    using "4.IH"(2) [OF wfr dr] .
  moreover have "sites_in current ((name, sub) # rest)
      = child_sites current (name, sub) @ sites_in current rest"
    by (simp add: child_sites.simps)
  ultimately show ?case using disjoint by simp
qed

lemma scan_projects_sites:
  "scan_projects E strict root tree = scan_sites E strict (repo_sites root tree) ([], [])"
  by (simp add: scan_projects_def scan_walk_sites(1))

lemma sites_reordered:
  assumes "wf_tree tree" "wf_tree tree'" "canonical tree = canonical tree'"
  shows "mset (map site_key (repo_sites root tree')) = mset (map site_key (repo_sites root tree))"
  using sites_canonical(1) [OF assms(1), of root] sites_canonical(1) [OF assms(2), of root] assms(3)
  by simp

lemma visit_entries:
  "found_entries (visit E strict k) = [] \<or>
     (\<exists>e. found_entries (visit E strict k) = [e] \<and> path e = fst k)"
proof (cases "visit E strict k")
  case (Inl exc)
  then show ?thesis by simp
next
  case (Inr st)
  obtain es ws where st: "st = (es, ws)" by (cases st)
  from Inr st have "scan_repo E strict (fst k) (key_children (snd k)) ([], []) = Inr (es, ws)"
    by (simp add: visit_def)
  from scan_repo_result [OF this] Inr st show ?thesis by auto
qed

lemma distinct_found:
  assumes "\<And>k. f k = [] \<or> (\<exists>e. f k = [e] \<and> path e = fst k)"
  shows "distinct (map fst ks) \<Longrightarrow> distinct (map path (concat (map f ks)))"
proof (induction ks)
  case Nil
  show ?case by simp
next
  case (Cons k ks)
  have sub: "set (map path (concat (map f ks))) \<subseteq> fst ` set ks"
  proof
    fix p assume "p \<in> set (map path (concat (map f ks)))"
    then obtain k' e where "k' \<in> set ks" "e \<in> set (f k')" "p = path e" by auto
    with assms [of k'] show "p \<in> fst ` set ks" by auto
  qed
  from Cons have d: "distinct (map path (concat (map f ks)))" and fresh: "fst k \<notin> fst ` set ks"
    by simp_all
  from assms [of k] show ?case
  proof
    assume "f k = []"
    with d show ?thesis by simp
  next
    assume "\<exists>e. f k = [e] \<and> path e = fst k"
    then obtain e where e: "f k = [e]" "path e = fst k" by blast
    with fresh sub have "path e \<notin> set (map path (concat (map f ks)))" by auto
    with d e(1) show ?thesis by simp
  qed
qed

lemma scan_sites_distinct_paths:
  assumes "scan_sites E strict sites ([], []) = Inr (es, ws)" "distinct (map fst sites)"
  shows "distinct (map path es)"
proof -
  from assms(1) have es: "es = concat (map (\<lambda>k. found_entries (visit E strict k)) (map site_key sites))"
    unfolding scan_sites_iff [of E strict _ "[]" "[]"] by simp
  have "map fst (map site_key sites) = map fst sites"
    by (induction sites) (simp_all add: site_key_def)
  with assms(2) have "distinct (map fst (map site_key sites))" by (simp only:)
  from distinct_found [of "\<lambda>k. found_entries (visit E strict k)", OF visit_entries this]
  show ?thesis unfolding es .
qed

lemma typed_entries_eq:
  "typed_entries es =
     (if \<forall>e \<in> set es. typed_entry e \<noteq> None then Some (map (\<lambda>e. the (typed_entry e)) es)
      else None)"
  by (induction es) (auto split: option.splits)

lemma typed_entries_iff:
  "typed_entries es = Some ts \<longleftrightarrow>
     (\<forall>e \<in> set es. typed_entry e \<noteq> None) \<and> ts = map (\<lambda>e. the (typed_entry e)) es"
  by (auto simp: typed_entries_eq)

lemma path_typed_entry: "typed_entry e = Some t \<Longrightarrow> path t = path e"
  by (auto simp: typed_entry_def split: json.splits)

lemma typed_entries_permuted:
  assumes "typed_entries es = Some ts" "mset es' = mset es"
  shows "\<exists>ts'. typed_entries es' = Some ts' \<and> mset ts' = mset ts"
proof -
  from assms(2) have "set es' = set es" by (rule mset_eq_setD)
  moreover from assms(2) have "mset (map (\<lambda>e. the (typed_entry e)) es')
      = mset (map (\<lambda>e. the (typed_entry e)) es)" by simp
  ultimately show ?thesis using assms(1) by (simp add: typed_entries_iff)
qed

lemma typed_entries_paths:
  assumes "typed_entries es = Some ts"
  shows "map path ts = map path es"
proof -
  from assms have all: "\<forall>e \<in> set es. typed_entry e \<noteq> None"
    and ts: "ts = map (\<lambda>e. the (typed_entry e)) es" by (simp_all add: typed_entries_iff)
  have "\<forall>e \<in> set es. path (the (typed_entry e)) = path e"
  proof
    fix e assume "e \<in> set es"
    with all obtain t where "typed_entry e = Some t" by auto
    then show "path (the (typed_entry e)) = path e" by (simp add: path_typed_entry)
  qed
  with ts show ?thesis by simp
qed

lemma resolve_conflicts_permuted:
  fixes ts :: "('i::linorder) entry list"
  assumes "mset ts' = mset ts" "distinct (map path ts)"
  shows "resolve_conflicts ts' = resolve_conflicts ts"
proof -
  from assms(1) have "set ts' = set ts" by (rule mset_eq_setD)
  with assms(2) have i: "inj_on path (set ts')" by (simp add: distinct_map)
  from assms(1) have m: "mset ts' = mset (sort_key path ts)" by simp
  have "sorted (map path (sort_key path ts))" by (rule sorted_sort_key)
  with m i have "sort_key path ts' = sort_key path ts"
    by (rule sort_key_inj_key_eq)
  then have "group_by_id ts' = group_by_id ts" by (simp add: group_by_id_def)
  then show ?thesis by (simp add: resolve_conflicts_def)
qed

text \<open>
  Claim C9. Take two listings of one well-formed tree, the directories listing their
  children in any two orders, and a run on the first that writes a manifest. Then the run
  on the second, with the same options and at any time, writes a manifest too, and the two
  texts are the serialisations of \<^const>\<open>manifest_doc\<close> for the same kept entries and
  conflicts: they differ in the value of \<^verbatim>\<open>generated_at\<close> only, and are equal when that
  value is.
\<close>

theorem manifest_independent_of_listing_order:
  assumes "wf_tree tree" and "wf_tree tree'" and "canonical tree = canonical tree'"
    and "main E strict root generated_at tree = Returned r"
  shows "\<exists>r' kept conflicts.
           main E strict root generated_at' tree' = Returned r' \<and>
           written r = dumps E (manifest_doc root generated_at kept conflicts) @ [CHR 0x0A] \<and>
           written r' = dumps E (manifest_doc root generated_at' kept conflicts) @ [CHR 0x0A]"
proof -
  from assms(4) obtain es ws ts where
    scan: "scan_projects E strict root tree = Inr (es, ws)"
    and typed: "typed_entries es = Some ts"
    and r: "r = \<lparr>written = write_manifest E root generated_at (fst (resolve_conflicts ts))
                              (snd (resolve_conflicts ts)),
                 stderr = map warning_line ws
                   @ (if snd (resolve_conflicts ts) \<noteq> [] then [duplicate_line] else []),
                 returned = 0\<rparr>"
    by (auto simp: main_def split: sum.splits option.splits prod.splits)
  from scan have sites: "scan_sites E strict (repo_sites root tree) ([], []) = Inr (es, ws)"
    by (simp add: scan_projects_sites)
  from scan_sites_permuted [OF sites_reordered [OF assms(1-3)] sites]
  obtain es' ws' where scan': "scan_projects E strict root tree' = Inr (es', ws')"
    and perm: "mset es' = mset es"
    by (auto simp: scan_projects_sites)
  from typed_entries_permuted [OF typed perm]
  obtain ts' where typed': "typed_entries es' = Some ts'" and perm': "mset ts' = mset ts"
    by blast
  have "distinct (map path es)"
    using scan_sites_distinct_paths [OF sites distinct_sites(1) [OF assms(1)]] .
  then have "distinct (map path ts)" by (simp add: typed_entries_paths [OF typed])
  from resolve_conflicts_permuted [OF perm' this]
  have same: "resolve_conflicts ts' = resolve_conflicts ts" .
  let ?kept = "fst (resolve_conflicts ts)" and ?conflicts = "snd (resolve_conflicts ts)"
  let ?r' = "\<lparr>written = write_manifest E root generated_at' ?kept ?conflicts,
              stderr = map warning_line ws' @ (if ?conflicts \<noteq> [] then [duplicate_line] else []),
              returned = 0\<rparr>"
  have "main E strict root generated_at' tree' = Returned ?r'"
    using scan' typed' same by (simp add: main_def split: prod.splits)
  moreover have "written r = dumps E (manifest_doc root generated_at ?kept ?conflicts) @ [CHR 0x0A]"
    by (simp add: r write_manifest_def)
  moreover have "written ?r' = dumps E (manifest_doc root generated_at' ?kept ?conflicts) @ [CHR 0x0A]"
    by (simp add: write_manifest_def)
  ultimately show ?thesis by blast
qed

text \<open>
  Two repositories with one id, the directories listed in two orders: both runs write the
  same text.
\<close>

theorem listing_order_example:
  "\<forall>d. \<exists>r r'. main (manual_env d) False ''/root'' ''2026-01-01T00:00:00+00:00'' two_repos = Returned r \<and>
              main (manual_env d) False ''/root'' ''2026-01-01T00:00:00+00:00'' two_repos_reordered
                = Returned r' \<and>
              written r' = written r"
proof
  fix d
  let ?now = "''2026-01-01T00:00:00+00:00''"
  have wf: "wf_tree two_repos" "wf_tree two_repos_reordered"
    by code_simp+
  have c: "canonical two_repos = canonical two_repos_reordered"
    by code_simp
  have "is_returned (main (manual_env d) False ''/root'' ?now two_repos)"
    by code_simp
  then obtain r where r: "main (manual_env d) False ''/root'' ?now two_repos = Returned r"
    by (cases "main (manual_env d) False ''/root'' ?now two_repos") auto
  from manifest_independent_of_listing_order [OF wf c r, of ?now]
  obtain r' where "main (manual_env d) False ''/root'' ?now two_repos_reordered = Returned r'"
    and "written r' = written r" by auto
  with r show "\<exists>r r'. main (manual_env d) False ''/root'' ?now two_repos = Returned r \<and>
              main (manual_env d) False ''/root'' ?now two_repos_reordered = Returned r' \<and>
              written r' = written r" by blast
qed

end
